theory Spec2Isabelle
  imports Complex_Main "HOL-Library.Sublist"
begin

section \<open>Strings\<close>

text \<open>
  JavaScript strings are modelled as \<^typ>\<open>string\<close>. The bytes \<open>0x00\<close> to \<open>0x7F\<close> stand for
  the ASCII code units; the byte \<open>0xFF\<close> stands for the reserved end marker U+2403 used by
  \<open>ngram.js\<close>; every other byte stands for a code unit that is neither white space nor a
  cased letter. On such strings \<open>toLowerCase\<close> maps \<open>A\<close>..\<open>Z\<close> to \<open>a\<close>..\<open>z\<close> and keeps the
  length.
\<close>

definition lower_char :: "char \<Rightarrow> char" where
  "lower_char c =
     (let n = (of_char c :: nat) in if 65 \<le> n \<and> n \<le> 90 then char_of (n + 32) else c)"

definition toLowerCase :: "string \<Rightarrow> string" where
  "toLowerCase s = map lower_char s"

definition startsWith :: "string \<Rightarrow> string \<Rightarrow> bool" where
  "startsWith s p = (take (length p) s = p)"

definition endsWith :: "string \<Rightarrow> string \<Rightarrow> bool" where
  "endsWith s p = (length p \<le> length s \<and> drop (length s - length p) s = p)"

section \<open>levenshtein.js\<close>

definition revisionScore :: int where "revisionScore = 1"
definition additionScore :: int where "additionScore = 1"
definition deletionScore :: int where "deletionScore = 2"

text \<open>
  The rows are the two \<open>Int32Array\<close>s of length \<open>target.length + 1\<close>; their entries are
  bounded by twice the sum of the two lengths, so they are modelled as unbounded integers.
  \<open>lev_cell\<close> is one pass of the body of the inner loop, \<open>lev_row\<close> the body of the outer
  loop before the swap. The bound \<open>maximumDistance\<close> is a whole number below \<open>2^53\<close>, where
  \<open>maximumDistance + 1\<close> is exact in the code.
\<close>

definition min3 :: "int \<Rightarrow> int \<Rightarrow> int \<Rightarrow> int" where
  "min3 a b c = min (min a b) c"

definition lev_cell :: "string \<Rightarrow> string \<Rightarrow> nat \<Rightarrow> int list \<Rightarrow> nat \<Rightarrow> int list \<Rightarrow> int list" where
  "lev_cell source target i prevRow j currRow =
     (let revisionScoreConditional =
            (if source ! (i - 1) \<noteq> target ! (j - 1) then revisionScore else 0)
      in currRow[j := min3 (prevRow ! (j - 1) + revisionScoreConditional)
                           (currRow ! (j - 1) + deletionScore)
                           (prevRow ! j + additionScore)])"

definition lev_row :: "string \<Rightarrow> string \<Rightarrow> nat \<Rightarrow> int list \<Rightarrow> int list \<Rightarrow> int list" where
  "lev_row source target i prevRow currRow =
     fold (lev_cell source target i prevRow) [1..<Suc (length target)]
          (currRow[0 := int i * additionScore])"

definition lev_rows :: "string \<Rightarrow> string \<Rightarrow> int list \<times> int list" where
  "lev_rows source target =
     fold (\<lambda>i (prevRow, currRow). (lev_row source target i prevRow currRow, prevRow))
          [1..<Suc (length source)]
          (map int [0..<Suc (length target)], replicate (Suc (length target)) 0)"

definition levenshtein :: "string \<Rightarrow> string \<Rightarrow> int \<Rightarrow> int" where
  "levenshtein source target maximumDistance =
     (if \<bar>int (length source) - int (length target)\<bar> > maximumDistance
      then maximumDistance + 1
      else fst (lev_rows source target) ! length target)"

section \<open>JavaScript objects\<close>

text \<open>
  A trie node is a plain object: its own properties are the edges to the children together
  with, at a word end, the properties \<open>flush\<close> (the value \<open>true\<close>) and \<open>index\<close> (a number).
  The model keeps all of them in one property list, in the order in which \<open>Object.keys\<close>,
  \<open>Object.entries\<close> and \<open>for..in\<close> enumerate them: array indices in ascending numeric order
  first, then the other keys in order of creation. A property list has no key twice.
\<close>

datatype jsval = JBool bool | JNum nat | JObj "(string \<times> jsval) list"

datatype error = InvalidConstructor | InvalidInput | InvalidSize | TypeError

text \<open>
  A JavaScript number is a finite value, an infinity or \<open>NaN\<close>. Finite values are modelled as
  rationals with exact arithmetic. The code compares and divides counts and adds small
  integers to the size; a quotient of two counts below \<open>2^53\<close> rounds to the same double
  exactly when the rationals are equal, and rounds in order, so the comparisons of the code
  agree with the comparisons of the rationals. Sums such as \<open>i + size\<close> are exact in the
  code only where the result is a double; a size within one unit in the last place of an
  integer is outside this model.
\<close>

datatype number = Finite rat | PosInfinity | NegInfinity | NaN

text \<open>\<open>list.length >= x\<close> and \<open>x > 1\<close>: a comparison with \<open>NaN\<close> is false.\<close>

fun length_reaches :: "nat \<Rightarrow> number \<Rightarrow> bool" where
  "length_reaches n (Finite r) = (of_nat n \<ge> r)"
| "length_reaches n PosInfinity = False"
| "length_reaches n NegInfinity = True"
| "length_reaches n NaN = False"

fun above_one :: "number \<Rightarrow> bool" where
  "above_one (Finite r) = (r > 1)"
| "above_one PosInfinity = True"
| "above_one NegInfinity = False"
| "above_one NaN = False"


fun entries :: "jsval \<Rightarrow> (string \<times> jsval) list" where
  "entries (JObj es) = es"
| "entries _ = []"

definition js_keys :: "jsval \<Rightarrow> string list" where
  "js_keys v = map fst (entries v)"

definition js_get :: "jsval \<Rightarrow> string \<Rightarrow> jsval option" where
  "js_get v k = map_of (entries v) k"

fun truthy :: "jsval \<Rightarrow> bool" where
  "truthy (JBool b) = b"
| "truthy (JNum n) = (n \<noteq> 0)"
| "truthy (JObj es) = True"

fun is_object :: "jsval \<Rightarrow> bool" where
  "is_object (JObj es) = True"
| "is_object _ = False"

text \<open>\<open>node.flush\<close> read as a condition: an absent property is \<open>undefined\<close>, which is falsy.\<close>

definition flushed :: "jsval \<Rightarrow> bool" where
  "flushed v = (case js_get v ''flush'' of None \<Rightarrow> False | Some f \<Rightarrow> truthy f)"

definition is_digit :: "char \<Rightarrow> bool" where
  "is_digit c = (let n = (of_char c :: nat) in 48 \<le> n \<and> n \<le> 57)"

definition index_value :: "string \<Rightarrow> int" where
  "index_value k = foldl (\<lambda>n c. 10 * n + (of_char c - 48)) 0 k"

text \<open>An array index is the canonical decimal form of an integer below \<open>2^32 - 1\<close>.\<close>

definition is_array_index :: "string \<Rightarrow> bool" where
  "is_array_index k =
     (k \<noteq> [] \<and> list_all is_digit k \<and> (k = ''0'' \<or> hd k \<noteq> CHR ''0'')
      \<and> index_value k < 4294967295)"

fun insert_index :: "string \<Rightarrow> jsval \<Rightarrow> (string \<times> jsval) list \<Rightarrow> (string \<times> jsval) list" where
  "insert_index k v [] = [(k, v)]"
| "insert_index k v (e # es) =
     (if is_array_index (fst e) \<and> index_value (fst e) < index_value k
      then e # insert_index k v es else (k, v) # e # es)"

fun replace_value :: "string \<Rightarrow> jsval \<Rightarrow> (string \<times> jsval) list \<Rightarrow> (string \<times> jsval) list" where
  "replace_value k v [] = []"
| "replace_value k v (e # es) =
     (if fst e = k then (k, v) # es else e # replace_value k v es)"

text \<open>\<open>node[k] = v\<close> on an object: an existing property keeps its place.\<close>

definition put_entry :: "string \<Rightarrow> jsval \<Rightarrow> (string \<times> jsval) list \<Rightarrow> (string \<times> jsval) list" where
  "put_entry k v es =
     (if k \<in> set (map fst es) then replace_value k v es
      else if is_array_index k then insert_index k v es
      else es @ [(k, v)])"

text \<open>\<open>delete node[k]\<close>.\<close>

definition delete_entry :: "string \<Rightarrow> (string \<times> jsval) list \<Rightarrow> (string \<times> jsval) list" where
  "delete_entry k es = filter (\<lambda>e. fst e \<noteq> k) es"

section \<open>The trie\<close>

record trie =
  model :: jsval
  index :: nat

text \<open>
  \<open>insert\<close>: the loop \<open>node = node[character] ??= {}\<close> followed by the two assignments at
  the last node. The class body is strict code, so an assignment to a property of a
  primitive value throws a \<open>TypeError\<close>.
\<close>

fun insert_chars :: "string \<Rightarrow> nat \<Rightarrow> jsval \<Rightarrow> error + jsval" where
  "insert_chars [] i (JObj es) =
     Inr (JObj (put_entry ''index'' (JNum i) (put_entry ''flush'' (JBool True) es)))"
| "insert_chars (c # cs) i (JObj es) =
     (case insert_chars cs i (case map_of es [c] of None \<Rightarrow> JObj [] | Some child \<Rightarrow> child) of
        Inl e \<Rightarrow> Inl e
      | Inr child' \<Rightarrow> Inr (JObj (put_entry [c] child' es)))"
| "insert_chars cs i v = Inl TypeError"

definition insert_word :: "string \<Rightarrow> trie \<Rightarrow> error + trie" where
  "insert_word word t =
     (case insert_chars (toLowerCase word) (Suc (index t)) (model t) of
        Inl e \<Rightarrow> Inl e
      | Inr m \<Rightarrow> Inr \<lparr>model = m, index = Suc (index t)\<rparr>)"

fun insert_all :: "string list \<Rightarrow> trie \<Rightarrow> error + trie" where
  "insert_all [] t = Inr t"
| "insert_all (w # ws) t =
     (case insert_word w t of Inl e \<Rightarrow> Inl e | Inr t' \<Rightarrow> insert_all ws t')"

text \<open>
  The input of the constructor: a string, an array of strings, \<open>null\<close> or \<open>undefined\<close>
  (reading \<open>input.constructor\<close> throws a \<open>TypeError\<close>), or a value of another kind.
\<close>

datatype trie_input = InputString string | InputArray "string list" | InputNullish | InputOther

fun tokenize_trie :: "trie_input \<Rightarrow> trie \<Rightarrow> error + trie" where
  "tokenize_trie (InputString w) t = insert_word w t"
| "tokenize_trie (InputArray ws) t = insert_all ws t"
| "tokenize_trie InputNullish t = Inl TypeError"
| "tokenize_trie InputOther t = Inl InvalidConstructor"

text \<open>
  \<open>compress node\<close> is the value of the object \<open>node\<close> after \<open>this.compress(node)\<close> has run.
  The loop runs over the entries the node had at the start; \<open>cur\<close> is the property list of
  the node as the loop changes it and \<open>written\<close> the keys the loop has assigned so far.

  When the child has exactly one key, the grandchild \<open>g\<close> is stored under the joined key and
  the child is deleted from the node. The recursive call then works on the detached child,
  whose only entry is \<open>g\<close>: what it changes in the child is lost, but it calls
  \<open>compress\<close> on \<open>g\<close> (unless \<open>g\<close> is skipped), which changes \<open>g\<close> in place, and the node
  now refers to \<open>g\<close>.

  Otherwise the recursive call changes the child in place; the node sees this where it still
  refers to the child, that is, unless an earlier pass of the loop has assigned that key.
\<close>

definition skipped :: "jsval \<Rightarrow> bool" where
  "skipped childNode = (\<not> is_object childNode \<or> flushed childNode)"

function (sequential) compress :: "jsval \<Rightarrow> jsval" where
  "compress (JObj es) =
     JObj (fst (fold (\<lambda>e (cur, written).
        if skipped (snd e) then (cur, written)
        else (case entries (snd e) of
                [g] \<Rightarrow> (delete_entry (fst e)
                           (put_entry (fst e @ fst g)
                              (if skipped (snd g) then snd g else compress (snd g)) cur),
                        (fst e @ fst g) # written)
              | _ \<Rightarrow> (if fst e \<in> set written then cur
                       else replace_value (fst e) (compress (snd e)) cur, written)))
        es (es, [])))"
| "compress v = v"
  by pat_completeness auto

termination compress
proof -
  have mem: "size v < Suc (size_list (size_prod (\<lambda>x. 0) size) es)"
    if "(k, v) \<in> set es" for k :: string and v :: jsval and es
    using that by (induction es) auto
  have sub: "size v < Suc (size_list (size_prod (\<lambda>x. 0) size) es)"
    if "(k, b) \<in> set es" "entries b = (k', v) # r" for k k' :: string and v b :: jsval and es r
  proof -
    have "size v < size b" using that(2) mem [of k' v "entries b"] by (cases b) auto
    then show ?thesis using mem [OF that(1)] by simp
  qed
  show ?thesis
    by (relation "measure size") (auto intro: mem sub)
qed

text \<open>The constructor: an empty model, the insertions, one call of \<open>compress\<close>.\<close>

definition new_trie :: "trie_input \<Rightarrow> error + trie" where
  "new_trie input =
     (case tokenize_trie input \<lparr>model = JObj [], index = 0\<rparr> of
        Inl e \<Rightarrow> Inl e
      | Inr t \<Rightarrow> Inr (t\<lparr>model := compress (model t)\<rparr>))"

text \<open>
  \<open>findWords\<close>: \<open>list\<close> is the array the calls share; each call returns it as it stands
  afterwards. \<open>Object.keys(node).forEach\<close> visits every property of the node. \<open>maxWord\<close>
  is any number.
\<close>

function (sequential) findWords :: "string \<Rightarrow> number \<Rightarrow> jsval \<Rightarrow> string list \<Rightarrow> string list" where
  "findWords word maxWord node list =
     (if length_reaches (length list) maxWord then list
      else fold (\<lambda>e l. findWords (word @ fst e) maxWord (snd e) l) (entries node)
             (if flushed node then list @ [word] else list))"
  by pat_completeness auto
termination
proof -
  have mem: "size v < Suc (size_list (size_prod (\<lambda>x. 0) size) es)"
    if "(k, v) \<in> set es" for k :: string and v :: jsval and es
    using that by (induction es) auto
  have sub: "size v < size b" if "(k, v) \<in> set (entries b)" for k :: string and v b :: jsval
    using that mem [of k v "entries b"] by (cases b) auto
  show ?thesis
    by (relation "measure (\<lambda>(word, maxWord, node, list). size node)") (auto intro: sub)
qed

text \<open>
  \<open>contains\<close>: \<open>this.flush\<close> is \<open>null\<close>, so the test \<open>key === this.flush\<close> never holds and
  the loop looks at every property of the node. The first key that is a prefix of the rest of
  the word is taken.
\<close>

definition key_matches :: "string \<Rightarrow> string \<times> jsval \<Rightarrow> bool" where
  "key_matches remainingWord e = (take (length (fst e)) remainingWord = fst e)"

function (sequential) contains_from :: "string \<Rightarrow> jsval \<Rightarrow> bool" where
  "contains_from remainingWord node =
     (if remainingWord \<noteq> [] \<and> truthy node
      then (case find (key_matches remainingWord) (entries node) of
              None \<Rightarrow> False
            | Some e \<Rightarrow> contains_from (drop (length (fst e)) remainingWord) (snd e))
      else remainingWord = [] \<and> flushed node)"
  by pat_completeness auto
termination
proof -
  have mem: "size v < Suc (size_list (size_prod (\<lambda>x. 0) size) es)"
    if "(k, v) \<in> set es" for k :: string and v :: jsval and es
    using that by (induction es) auto
  have sub: "size v < size b" if "(k, v) \<in> set (entries b)" for k :: string and v b :: jsval
    using that mem [of k v "entries b"] by (cases b) auto
  have fnd: "size (snd e) < size b" if "find P (entries b) = Some e" for P e and b :: jsval
  proof -
    from that have "e \<in> set (entries b)" by (auto simp: find_Some_iff)
    then show ?thesis using sub [of "fst e" "snd e" b] by simp
  qed
  show ?thesis
    by (relation "measure (\<lambda>(remainingWord, node). size node)") (auto intro: fnd)
qed

definition contains :: "trie \<Rightarrow> string \<Rightarrow> bool" where
  "contains t word = contains_from (toLowerCase word) (model t)"

text \<open>
  \<open>levenshteinSearch\<close>: as in \<open>contains\<close>, the test \<open>key !== this.flush\<close> always holds.
  A node with \<open>flush\<close> carries a numeric \<open>index\<close>; \<open>index_of\<close> reads it.
\<close>

record candidate =
  word :: string
  distance :: int
  rank :: nat

definition index_of :: "jsval \<Rightarrow> nat" where
  "index_of node = (case js_get node ''index'' of Some (JNum n) \<Rightarrow> n | _ \<Rightarrow> 0)"

function (sequential) levenshteinSearch ::
  "string \<Rightarrow> int \<Rightarrow> jsval \<Rightarrow> string \<Rightarrow> candidate list \<Rightarrow> candidate list" where
  "levenshteinSearch target maxDistance node w results =
     fold (\<lambda>e r. levenshteinSearch target maxDistance (snd e) (w @ fst e) r) (entries node)
       (if flushed node \<and> levenshtein w target maxDistance \<le> maxDistance
        then results @ [\<lparr>word = w, distance = levenshtein w target maxDistance,
                          rank = index_of node\<rparr>]
        else results)"
  by pat_completeness auto
termination
proof -
  have mem: "size v < Suc (size_list (size_prod (\<lambda>x. 0) size) es)"
    if "(k, v) \<in> set es" for k :: string and v :: jsval and es
    using that by (induction es) auto
  have sub: "size v < size b" if "(k, v) \<in> set (entries b)" for k :: string and v b :: jsval
    using that mem [of k v "entries b"] by (cases b) auto
  show ?thesis
    by (relation "measure (\<lambda>(target, maxDistance, node, w, results). size node)")
       (auto intro: sub)
qed

text \<open>
  The comparator of \<open>closest\<close>, with the penalty factor \<open>.01\<close> as the exact fraction, and the
  sort as a stable insertion sort, which is the order \<open>Array.prototype.sort\<close> gives for a
  consistent comparator. The code multiplies by the double nearest to \<open>.01\<close>, so it may
  order two entries whose adjusted distances are almost equal the other way round; the
  entries are the same.
\<close>

definition highIndexThreshold :: nat where "highIndexThreshold = 5000"
definition indexPenaltyFactor :: rat where "indexPenaltyFactor = 1 / 100"

definition adjustedDistance :: "candidate \<Rightarrow> rat" where
  "adjustedDistance a =
     of_int (distance a)
     + (if rank a > highIndexThreshold
        then of_nat (rank a - highIndexThreshold) * indexPenaltyFactor else 0)"

definition compare_candidates :: "candidate \<Rightarrow> candidate \<Rightarrow> rat" where
  "compare_candidates a b =
     (if adjustedDistance a \<noteq> adjustedDistance b
      then adjustedDistance a - adjustedDistance b
      else of_nat (rank a) - of_nat (rank b))"

fun insert_by :: "('a \<Rightarrow> 'a \<Rightarrow> rat) \<Rightarrow> 'a \<Rightarrow> 'a list \<Rightarrow> 'a list" where
  "insert_by cmp x [] = [x]"
| "insert_by cmp x (y # ys) =
     (if cmp x y < 0 then x # y # ys else y # insert_by cmp x ys)"

definition sort_by :: "('a \<Rightarrow> 'a \<Rightarrow> rat) \<Rightarrow> 'a list \<Rightarrow> 'a list" where
  "sort_by cmp xs = fold (insert_by cmp) xs []"

definition closest :: "trie \<Rightarrow> string \<Rightarrow> int \<Rightarrow> candidate list" where
  "closest t target maxDistance =
     (if contains t target then []
      else sort_by compare_candidates
             (levenshteinSearch target maxDistance (model t) [] []))"

text \<open>
  \<open>complete\<close>. The argument is a string, an array of strings or some other value; the result is \<open>undefined\<close>, one
  word, or an array of words. \<open>descend\<close> is the \<open>while\<close> loop: it returns the matched prefix
  and the node reached, or nothing when no key matches (\<open>!matchingKey\<close> also holds for the
  empty key).
\<close>

datatype argument = Str string | Arr "string list" | Other

datatype completion = Undefined | Word string | Words "string list"

definition edge_matches :: "string \<Rightarrow> string \<times> jsval \<Rightarrow> bool" where
  "edge_matches segment e = (startsWith (fst e) segment \<or> startsWith segment (fst e))"

function (sequential) descend :: "string \<Rightarrow> nat \<Rightarrow> string \<Rightarrow> jsval \<Rightarrow> (string \<times> jsval) option" where
  "descend prefixLower idx matchedPrefix node =
     (if idx < length prefixLower
      then (case find (edge_matches (drop idx prefixLower)) (entries node) of
              None \<Rightarrow> None
            | Some e \<Rightarrow>
                if fst e = [] then None
                else descend prefixLower (idx + length (fst e)) (matchedPrefix @ fst e) (snd e))
      else Some (matchedPrefix, node))"
  by pat_completeness auto
termination
  by (relation "measure (\<lambda>(prefixLower, idx, matchedPrefix, node). length prefixLower - idx)")
     (auto simp: neq_Nil_conv)

definition no_match :: "number \<Rightarrow> completion" where
  "no_match maxWord = (if above_one maxWord then Words [] else Undefined)"

definition complete :: "trie \<Rightarrow> argument \<Rightarrow> number \<Rightarrow> error + completion" where
  "complete t arg maxWord =
     (case arg of
        Str pfx \<Rightarrow>
          if pfx = [] then Inr (no_match maxWord)
          else (case descend (toLowerCase pfx) 0 [] (model t) of
                  None \<Rightarrow> Inr (no_match maxWord)
                | Some (matchedPrefix, node) \<Rightarrow>
                    let match = findWords matchedPrefix maxWord node []
                    in Inr (if above_one maxWord then Words match
                            else (case match of [] \<Rightarrow> Undefined | w # ws \<Rightarrow> Word w)))
      | _ \<Rightarrow> Inl InvalidInput)"

declare findWords.simps [simp del] contains_from.simps [simp del]
  levenshteinSearch.simps [simp del] descend.simps [simp del]

section \<open>Example values\<close>

text \<open>The trie built from car, cat, pot.\<close>

definition example_trie :: trie where
  "example_trie =
     \<lparr>model = JObj
        [(''ca'', JObj
           [(''r'', JObj [(''flush'', JBool True), (''index'', JNum 1)]),
            (''t'', JObj [(''flush'', JBool True), (''index'', JNum 2)])]),
         (''po'', JObj
           [(''t'', JObj [(''flush'', JBool True), (''index'', JNum 3)])])],
      index = 3\<rparr>"

text \<open>The children of a node: its properties that are objects.\<close>

definition edges :: "jsval \<Rightarrow> (string \<times> jsval) list" where
  "edges node = filter (\<lambda>e. is_object (snd e)) (entries node)"

section \<open>ngram.js\<close>

datatype size_argument = SizeUndefined | SizeNumber number | SizeOther

record ngram =
  ngram_size :: number
  ngram_model :: "(string \<times> rat) list"
  lookup :: string

definition end_marker :: char where
  "end_marker = CHR 0xFF"

definition is_space :: "char \<Rightarrow> bool" where
  "is_space c = (let n = (of_char c :: nat) in (9 \<le> n \<and> n \<le> 13) \<or> n = 32)"

text \<open>
  \<open>text.split(/\s+/)\<close>: \<open>in_space\<close> says that the character before was white space. The
  result always has a token; a string that starts or ends with white space gives an empty
  first or last token.
\<close>

fun split_spaces :: "bool \<Rightarrow> string \<Rightarrow> string list" where
  "split_spaces in_space [] = [[]]"
| "split_spaces in_space (c # cs) =
     (if is_space c
      then (if in_space then split_spaces True cs else [] # split_spaces True cs)
      else (case split_spaces False cs of
              [] \<Rightarrow> [[c]]
            | t # ts \<Rightarrow> (c # t) # ts))"

definition tokenize :: "argument \<Rightarrow> error + string list" where
  "tokenize text =
     (case text of Str s \<Rightarrow> Inr (split_spaces False s) | _ \<Rightarrow> Inl InvalidConstructor)"

text \<open>\<open>ngram.split(' ')\<close>: a token ends at every single blank.\<close>

fun split_blank :: "string \<Rightarrow> string list" where
  "split_blank [] = [[]]"
| "split_blank (c # cs) =
     (if c = CHR '' '' then [] # split_blank cs
      else (case split_blank cs of
              [] \<Rightarrow> [[c]]
            | t # ts \<Rightarrow> (c # t) # ts))"

text \<open>\<open>words.join(' ')\<close>.\<close>

fun join :: "string list \<Rightarrow> string" where
  "join [] = []"
| "join [t] = t"
| "join (t # ts) = t @ '' '' @ join ts"

text \<open>\<open>Ngram.punctuation\<close>, the pattern \<open>/[.!?E]$/\<close> with \<open>E\<close> the end marker.\<close>

definition is_punctuation :: "char \<Rightarrow> bool" where
  "is_punctuation c = (c = CHR ''.'' \<or> c = CHR ''!'' \<or> c = CHR ''?'' \<or> c = end_marker)"

definition isEndOfSentence :: "string \<Rightarrow> bool" where
  "isEndOfSentence w = (w \<noteq> [] \<and> is_punctuation (last w))"

text \<open>
  \<open>Array.prototype.slice\<close>: an argument is truncated to an integer first (\<open>NaN\<close> to 0); a
  negative position counts from the end; positions are clamped to the array.
\<close>

definition truncate :: "rat \<Rightarrow> int" where
  "truncate r = (if r \<ge> 0 then \<lfloor>r\<rfloor> else \<lceil>r\<rceil>)"

definition clamp_position :: "nat \<Rightarrow> number \<Rightarrow> nat" where
  "clamp_position len x =
     (case x of
        NaN \<Rightarrow> 0
      | PosInfinity \<Rightarrow> len
      | NegInfinity \<Rightarrow> 0
      | Finite r \<Rightarrow>
          (let k = truncate r
           in if k < 0 then nat (max (int len + k) 0) else nat (min k (int len))))"

definition slice :: "'a list \<Rightarrow> number \<Rightarrow> number \<Rightarrow> 'a list" where
  "slice xs start final =
     (let k = clamp_position (length xs) start; e = clamp_position (length xs) final
      in take (e - k) (drop k xs))"

definition slice_from :: "'a list \<Rightarrow> number \<Rightarrow> 'a list" where
  "slice_from xs start = drop (clamp_position (length xs) start) xs"

fun plus_number :: "number \<Rightarrow> rat \<Rightarrow> number" where
  "plus_number (Finite r) d = Finite (r + d)"
| "plus_number x d = x"

text \<open>\<open>size <= 0\<close> and \<open>i <= tokens.length - size\<close>: a comparison with \<open>NaN\<close> is false.\<close>

fun le_zero :: "number \<Rightarrow> bool" where
  "le_zero (Finite r) = (r \<le> 0)"
| "le_zero NegInfinity = True"
| "le_zero PosInfinity = False"
| "le_zero NaN = False"

fun in_range :: "nat \<Rightarrow> nat \<Rightarrow> number \<Rightarrow> bool" where
  "in_range i len (Finite r) = (of_nat i \<le> of_nat len - r)"
| "in_range i len NegInfinity = True"
| "in_range i len PosInfinity = False"
| "in_range i len NaN = False"

text \<open>A \<open>Map\<close> keeps its keys in order of insertion; \<open>set\<close> on a present key keeps its place.\<close>

fun map_set :: "'k \<Rightarrow> 'v \<Rightarrow> ('k \<times> 'v) list \<Rightarrow> ('k \<times> 'v) list" where
  "map_set k v [] = [(k, v)]"
| "map_set k v (e # es) = (if fst e = k then (k, v) # es else e # map_set k v es)"

text \<open>\<open>ngram.replace(E, '')\<close> removes the first end marker of the string.\<close>

fun strip_marker :: "string \<Rightarrow> string" where
  "strip_marker [] = []"
| "strip_marker (c # cs) = (if c = end_marker then cs else c # strip_marker cs)"

text \<open>
  The body of the loop of \<open>tabulate\<close> at position \<open>i\<close>. The count is read under the joined
  window and written under the window without its first end marker.
\<close>

definition skip_window :: "string list \<Rightarrow> number \<Rightarrow> nat \<Rightarrow> bool" where
  "skip_window tokens sz i =
     list_ex isEndOfSentence
       (slice tokens (Finite (of_nat i)) (plus_number (plus_number sz (of_nat i)) (- 1)))"

definition count_window :: "string list \<Rightarrow> number \<Rightarrow> nat \<Rightarrow> (string \<times> nat) list \<Rightarrow> (string \<times> nat) list" where
  "count_window tokens sz i ngrams =
     (let ngram = join (slice tokens (Finite (of_nat i)) (plus_number sz (of_nat i)))
      in map_set (strip_marker ngram)
           ((case map_of ngrams ngram of None \<Rightarrow> 0 | Some c \<Rightarrow> c) + 1) ngrams)"

text \<open>
  The loop \<open>for (let i = 0; i <= tokens.length - size; i++)\<close>; the size is positive or
  \<open>NaN\<close> here, so the loop ends at the latest when \<open>i\<close> passes the length.
\<close>

function tabulate_loop :: "string list \<Rightarrow> number \<Rightarrow> nat \<Rightarrow> (string \<times> nat) list \<Rightarrow> (string \<times> nat) list" where
  "tabulate_loop tokens sz i ngrams =
     (if i \<le> length tokens \<and> in_range i (length tokens) sz
      then tabulate_loop tokens sz (Suc i)
             (if skip_window tokens sz i then ngrams else count_window tokens sz i ngrams)
      else ngrams)"
  by pat_completeness auto
termination
  by (relation "measure (\<lambda>(tokens, sz, i, ngrams). Suc (length tokens) - i)") auto

definition tabulate :: "string list \<Rightarrow> size_argument \<Rightarrow> error + (string \<times> nat) list" where
  "tabulate tokens sz =
     (case sz of
        SizeNumber x \<Rightarrow> if le_zero x then Inl InvalidSize else Inr (tabulate_loop tokens x 0 [])
      | _ \<Rightarrow> Inl InvalidSize)"

text \<open>\<open>probabilities\<close>: every count divided by the sum of all counts.\<close>

definition totalNgrams :: "(string \<times> nat) list \<Rightarrow> nat" where
  "totalNgrams grams = fold (\<lambda>count sum. sum + count) (map snd grams) 0"

definition probabilities :: "(string \<times> nat) list \<Rightarrow> (string \<times> rat) list" where
  "probabilities grams =
     fold (\<lambda>e m. map_set (fst e) (of_nat (snd e) / of_nat (totalNgrams grams)) m) grams []"

text \<open>
  \<open>suggestNextWord\<close>. \<open>scan\<close> is the loop over the model with the current
  \<open>maxProbability\<close> and \<open>suggestedWord\<close>; the \<open>break\<close> returns at once.
\<close>

definition prefix_matches :: "string \<Rightarrow> string \<Rightarrow> bool" where
  "prefix_matches sequence ngram =
     endsWith (toLowerCase sequence) (toLowerCase (join (butlast (split_blank ngram))))"

fun scan :: "string \<Rightarrow> (string \<times> rat) list \<Rightarrow> rat \<Rightarrow> string \<Rightarrow> string" where
  "scan sequence [] maxProbability suggestedWord = suggestedWord"
| "scan sequence (e # es) maxProbability suggestedWord =
     (if snd e \<le> maxProbability then scan sequence es maxProbability suggestedWord
      else if prefix_matches sequence (fst e)
      then (if snd e = 1 then last (split_blank (fst e))
            else scan sequence es (snd e) (last (split_blank (fst e))))
      else scan sequence es maxProbability suggestedWord)"

text \<open>\<open>suggestedWord.trim().replace(Ngram.punctuation, '')\<close>.\<close>

definition trim :: "string \<Rightarrow> string" where
  "trim s = rev (dropWhile is_space (rev (dropWhile is_space s)))"

definition strip_punctuation :: "string \<Rightarrow> string" where
  "strip_punctuation s = (if isEndOfSentence s then butlast s else s)"

definition suggestNextWord :: "ngram \<Rightarrow> string \<Rightarrow> bool \<Rightarrow> string" where
  "suggestNextWord m sequence sanitize =
     (let suggestedWord = scan sequence (ngram_model m) 0 []
      in if sanitize then strip_punctuation (trim suggestedWord) else suggestedWord)"

text \<open>
  The loop of \<open>complete\<close>, for a whole number \<open>maxWords\<close> of passes: \<open>n\<close> passes are left,
  \<open>seenSequences\<close> holds the sequences tried so far, \<open>words\<close> grows. \<open>words.slice(-index)\<close> with \<open>index = size - 1\<close>.
\<close>

fun negate :: "number \<Rightarrow> number" where
  "negate (Finite r) = Finite (- r)"
| "negate PosInfinity = NegInfinity"
| "negate NegInfinity = PosInfinity"
| "negate NaN = NaN"

fun extend :: "ngram \<Rightarrow> nat \<Rightarrow> string list \<Rightarrow> string list \<Rightarrow> string list" where
  "extend m 0 seenSequences words = words"
| "extend m (Suc n) seenSequences words =
     (let sequence = join (slice_from words (negate (plus_number (ngram_size m) (- 1))))
      in if sequence \<in> set seenSequences then words
         else (let nextWord = suggestNextWord m sequence True
               in if isEndOfSentence nextWord then words @ [nextWord]
                  else if nextWord = [] then words
                  else extend m n (sequence # seenSequences) (words @ [nextWord])))"

text \<open>
  \<open>complete\<close> returns the suggestion and the instance with its \<open>lookup\<close> as the call
  leaves it.
\<close>

definition complete_ngram :: "ngram \<Rightarrow> argument \<Rightarrow> nat \<Rightarrow> error + (string \<times> ngram)" where
  "complete_ngram m arg maxWords =
     (case arg of
        Str pfx \<Rightarrow>
          if pfx = [] then Inr ([], m\<lparr>lookup := []\<rparr>)
          else (let suggestion = join (extend m maxWords [] (split_spaces False pfx));
                    m' = (if suggestion \<noteq> pfx \<and> suggestion \<noteq> lookup m
                             \<and> startsWith suggestion pfx
                          then m\<lparr>lookup := suggestion\<rparr> else m)
                in if lookup m' \<noteq> [] \<and> startsWith (lookup m') pfx
                   then Inr (lookup m', m') else Inr (suggestion, m'))
      | _ \<Rightarrow> Inl InvalidConstructor)"

text \<open>
  The constructor with \<open>setValue\<close>: the size defaults to 4 when it is \<open>undefined\<close>; the text
  is tokenized first, then the size is checked in \<open>tabulate\<close>.
\<close>

definition new_ngram :: "argument \<Rightarrow> size_argument \<Rightarrow> error + ngram" where
  "new_ngram input sz =
     (let sz' = (case sz of SizeUndefined \<Rightarrow> SizeNumber (Finite 4) | _ \<Rightarrow> sz)
      in case tokenize input of
           Inl e \<Rightarrow> Inl e
         | Inr tokens \<Rightarrow>
             (case tabulate tokens sz' of
                Inl e \<Rightarrow> Inl e
              | Inr grams \<Rightarrow>
                  Inr \<lparr>ngram_size = (case sz' of SizeNumber x \<Rightarrow> x | _ \<Rightarrow> NaN),
                       ngram_model = probabilities grams, lookup = []\<rparr>))"

declare tabulate_loop.simps [simp del]

section \<open>Notions of the specification\<close>

text \<open>
  The sizes of the amended construction claim: \<open>undefined\<close> or a finite positive number on
  the one side, a value that is not a number or a number \<open>\<le> 0\<close> on the other.
\<close>

fun positive_size :: "size_argument \<Rightarrow> bool" where
  "positive_size SizeUndefined = True"
| "positive_size (SizeNumber (Finite r)) = (0 < r)"
| "positive_size sz = False"

fun rejected_size :: "size_argument \<Rightarrow> bool" where
  "rejected_size SizeOther = True"
| "rejected_size (SizeNumber x) = le_zero x"
| "rejected_size SizeUndefined = False"

definition is_string :: "argument \<Rightarrow> bool" where
  "is_string a = (case a of Str s \<Rightarrow> True | _ \<Rightarrow> False)"

text \<open>
  The n-gram the specification names for \<open>suggestNextWord\<close>: among the entries with a
  positive probability whose leading tokens match the end of the sequence, the first one
  that has the highest probability; the result is its last token.
\<close>

definition matching :: "string \<Rightarrow> (string \<times> rat) list \<Rightarrow> (string \<times> rat) list" where
  "matching sequence table = filter (\<lambda>e. 0 < snd e \<and> prefix_matches sequence (fst e)) table"

definition first_highest :: "(string \<times> rat) list \<Rightarrow> (string \<times> rat) option" where
  "first_highest es = (if es = [] then None else find (\<lambda>e. snd e = Max (snd ` set es)) es)"

definition best_match :: "string \<Rightarrow> (string \<times> rat) list \<Rightarrow> string" where
  "best_match sequence table =
     (case first_highest (matching sequence table) of
        None \<Rightarrow> []
      | Some e \<Rightarrow> last (split_blank (fst e)))"

definition above :: "rat \<Rightarrow> string \<Rightarrow> (string \<times> rat) list \<Rightarrow> (string \<times> rat) list" where
  "above maxProbability sequence table =
     filter (\<lambda>e. maxProbability < snd e \<and> prefix_matches sequence (fst e)) table"

text \<open>
  The windows of the specification of \<open>tabulate\<close>: the window at \<open>i\<close>, whether none of its
  first \<open>n - 1\<close> tokens ends a sentence, and the positions of the windows that are counted.
  Counting a window adds one to the count stored under its key, the joined window without
  the end marker; \<open>window_counts\<close> is the table of the counted windows.
\<close>

definition window :: "string list \<Rightarrow> nat \<Rightarrow> nat \<Rightarrow> string list" where
  "window tokens n i = take n (drop i tokens)"

definition context_open :: "string list \<Rightarrow> nat \<Rightarrow> nat \<Rightarrow> bool" where
  "context_open tokens n i = (\<not> list_ex isEndOfSentence (take (n - 1) (window tokens n i)))"

definition counted_windows :: "string list \<Rightarrow> nat \<Rightarrow> nat list" where
  "counted_windows tokens n = filter (context_open tokens n) [0..<Suc (length tokens) - n]"

definition count_of :: "(string \<times> nat) list \<Rightarrow> string \<Rightarrow> nat" where
  "count_of table k = (case map_of table k of None \<Rightarrow> 0 | Some c \<Rightarrow> c)"

definition add_window :: "string \<Rightarrow> (string \<times> nat) list \<Rightarrow> (string \<times> nat) list" where
  "add_window ngram table =
     map_set (strip_marker ngram) (count_of table (strip_marker ngram) + 1) table"

definition window_counts :: "string list \<Rightarrow> nat \<Rightarrow> (string \<times> nat) list" where
  "window_counts tokens n =
     fold (\<lambda>i. add_window (join (window tokens n i))) (counted_windows tokens n) []"

text \<open>The candidate suggestion \<open>complete\<close> computes before it looks at the cache.\<close>

definition candidate_of :: "ngram \<Rightarrow> string \<Rightarrow> nat \<Rightarrow> string" where
  "candidate_of m pfx maxWords = join (extend m maxWords [] (split_spaces False pfx))"

text \<open>Models and tokens of the examples.\<close>

definition bigram_example :: ngram where
  "bigram_example =
     \<lparr>ngram_size = Finite 2,
      ngram_model = [(''a b'', 2 / 7), (''b a'', 2 / 7), (''a c'', 2 / 7), (''c a'', 1 / 7)],
      lookup = []\<rparr>"

definition sentence_tokens :: "string list" where
  "sentence_tokens = [''hi'', ''there.'', ''hi'', ''friend.'']"

text \<open>The tokens a, b, a, b, a, c, where both tokens b end with the end marker.\<close>

definition marked_tokens :: "string list" where
  "marked_tokens =
     [''a'', ''b'' @ [end_marker], ''a'', ''b'' @ [end_marker], ''a'', ''c'']"

definition cache_example :: ngram where
  "cache_example =
     \<lparr>ngram_size = Finite 2,
      ngram_model = [(''the cat'', 1 / 5), (''cat sat'', 1 / 5), (''sat on'', 1 / 5),
                     (''on the'', 1 / 5), (''the mat.'', 1 / 5)],
      lookup = []\<rparr>"

text \<open>
  The words a node spells: the empty word at a word end, and an edge label followed by a
  word the child spells. \<open>plain\<close> describes the nodes \<open>insert\<close> builds: every edge to an
  object has a label of one character, and the only other properties are \<open>flush\<close> and
  \<open>index\<close>.
\<close>

inductive spells :: "jsval \<Rightarrow> string \<Rightarrow> bool" where
  here: "flushed node \<Longrightarrow> spells node []"
| step: "(k, child) \<in> set (entries node) \<Longrightarrow> spells child w \<Longrightarrow> spells node (k @ w)"

inductive plain :: "jsval \<Rightarrow> bool" where
  object: "(\<And>k v. (k, v) \<in> set es \<Longrightarrow>
              (if is_object v then length k = 1 \<and> plain v else k = ''flush'' \<or> k = ''index''))
           \<Longrightarrow> plain (JObj es)"
| bool: "plain (JBool b)"
| num: "plain (JNum n)"

text \<open>The words of a result of \<open>complete\<close>, and the words of a constructor input.\<close>

fun words_of :: "completion \<Rightarrow> string list" where
  "words_of Undefined = []"
| "words_of (Word w) = [w]"
| "words_of (Words ws) = ws"

fun input_words :: "trie_input \<Rightarrow> string set" where
  "input_words (InputString w) = {w}"
| "input_words (InputArray ws) = set ws"
| "input_words InputNullish = {}"
| "input_words InputOther = {}"

section \<open>Claims\<close>

text \<open>
  C1. The claim prices an insertion into the source at 1 and a deletion from the source at 2,
  so that the distance from cat to cats is 1 and from cat to ca is 2. The code charges
  \<open>deletionScore\<close> for a step along the target and \<open>additionScore\<close> for a step along the
  source: on these two inputs it returns 2 and 1.
\<close>

theorem levenshtein_costs_swapped:
  "levenshtein ''cat'' ''cats'' 3 = 2 \<and> levenshtein ''cat'' ''ca'' 3 = 1"
  by code_simp


subsection \<open>Fuzzy search\<close>

lemma set_insert_by: "set (insert_by cmp x ys) = {x} \<union> set ys"
  by (induction ys) auto

lemma set_fold_insert_by: "set (fold (insert_by cmp) xs acc) = set xs \<union> set acc"
  by (induction xs arbitrary: acc) (auto simp: set_insert_by)

lemma set_sort_by: "set (sort_by cmp xs) = set xs"
  by (simp add: sort_by_def set_fold_insert_by)

lemma levenshteinSearch_bounded:
  "\<forall>c \<in> set results. distance c \<le> maxDistance \<Longrightarrow>
   \<forall>c \<in> set (levenshteinSearch target maxDistance node w results). distance c \<le> maxDistance"
proof (induction target maxDistance node w results rule: levenshteinSearch.induct)
  case (1 target maxDistance node w results)
  define P where "P = (\<lambda>r :: candidate list. \<forall>c \<in> set r. distance c \<le> maxDistance)"
  define start where
    "start = (if flushed node \<and> levenshtein w target maxDistance \<le> maxDistance
        then results @ [\<lparr>word = w, distance = levenshtein w target maxDistance,
                          rank = index_of node\<rparr>]
        else results)"
  have start: "P start" using "1.prems" by (auto simp: P_def start_def)
  have step: "P (fold (\<lambda>e r. levenshteinSearch target maxDistance (snd e) (w @ fst e) r) es r)"
    if "set es \<subseteq> set (entries node)" "P r" for es r
    using that
  proof (induction es arbitrary: r)
    case Nil
    then show ?case by simp
  next
    case (Cons e es)
    have "P (levenshteinSearch target maxDistance (snd e) (w @ fst e) r)"
      using "1.IH" [of e r] Cons.prems unfolding P_def by simp
    then show ?case using Cons by simp
  qed
  have "P (levenshteinSearch target maxDistance node w results)"
    using step [of "entries node" start] start
    by (subst levenshteinSearch.simps) (simp only: start_def)
  then show ?case by (simp add: P_def)
qed

text \<open>
  C9. For every trie, target and bound: when \<open>contains\<close> holds of the target, \<open>closest\<close>
  returns the empty list; and every entry \<open>closest\<close> returns has a distance of at most the
  bound.
\<close>

theorem closest_bounded:
  "(contains t target \<longrightarrow> closest t target maxDistance = [])
   \<and> (\<forall>c \<in> set (closest t target maxDistance). distance c \<le> maxDistance)"
  using levenshteinSearch_bounded [of "[]" maxDistance target "model t" "[]"]
  by (simp add: closest_def set_sort_by)

theorem closest_bounded_witness:
  "contains example_trie ''cat'' \<and> closest example_trie ''cat'' 1 = []
   \<and> closest example_trie ''cab'' 1 \<noteq> []
   \<and> list_all (\<lambda>c. distance c \<le> 1) (closest example_trie ''cab'' 1)"
proof -
  have a: "contains example_trie ''cat''" by code_simp
  have b: "closest example_trie ''cab'' 1 \<noteq> []" by code_simp
  show ?thesis
    using closest_bounded [of example_trie "''cat''" 1]
      closest_bounded [of example_trie "''cab''" 1] a b
    by (simp add: list_all_iff)
qed

subsection \<open>Completion and compression on concrete vocabularies\<close>

lemma example_trie_built: "new_trie (InputArray [''car'', ''cat'', ''pot'']) = Inr example_trie"
  by code_simp

text \<open>
  C2. The claim says that a non-empty prefix of an inserted word always has a completion.
  In the trie built from a, af the node reached by a is a word end, so its first properties
  are \<open>flush\<close> and \<open>index\<close>. For the prefix af the rest of the prefix is f, the key
  \<open>flush\<close> starts with it and is found before the edge f: \<open>complete\<close> walks into the value
  \<open>true\<close> and finds no word, although af was inserted.
\<close>

theorem complete_misses_inserted_word:
  "(case new_trie (InputArray [''a'', ''af'']) of
      Inl e \<Rightarrow> False
    | Inr t \<Rightarrow> contains t ''af''
              \<and> complete t (Str ''af'') (Finite 1) = Inr Undefined
              \<and> complete t (Str ''af'') (Finite 2) = Inr (Words []))"
  by code_simp

text \<open>
  C3. The claim says that a second \<open>compress\<close> changes nothing and that \<open>contains\<close> gives
  the same answers before and after \<open>compress\<close>. For the vocabulary abc the constructor
  leaves the edge ab followed by the edge c, and a second \<open>compress\<close> joins them into abc.
  For the vocabulary flush and the empty word, \<open>contains\<close> finds flush before \<open>compress\<close>
  and not after it: the joined edge fl is created after the root's property \<open>flush\<close>.
\<close>

theorem compress_not_idempotent:
  "(case new_trie (InputArray [''abc'']) of
      Inl e \<Rightarrow> False
    | Inr t \<Rightarrow>
        model t = JObj [(''ab'', JObj [(''c'', JObj [(''flush'', JBool True), (''index'', JNum 1)])])]
        \<and> compress (model t) = JObj [(''abc'', JObj [(''flush'', JBool True), (''index'', JNum 1)])])
   \<and> (case tokenize_trie (InputArray [''flush'', []]) \<lparr>model = JObj [], index = 0\<rparr> of
        Inl e \<Rightarrow> False
      | Inr t \<Rightarrow> contains t ''flush'' \<and> \<not> contains (t\<lparr>model := compress (model t)\<rparr>) ''flush'')"
  by code_simp

text \<open>
  C4. The claim says that after the constructor no node other than a word end has exactly
  one child. In the trie built from abc the node under the edge ab is not a word end and has
  the single child c; in the trie built from a, abc the nodes below the word end a are never
  visited by \<open>compress\<close>.
\<close>

theorem single_child_after_compress:
  "(case new_trie (InputArray [''abc'']) of
      Inl e \<Rightarrow> False
    | Inr t \<Rightarrow> (case js_get (model t) ''ab'' of
                  None \<Rightarrow> False
                | Some b \<Rightarrow> \<not> flushed b \<and> map fst (edges b) = [''c'']))
   \<and> (case new_trie (InputArray [''a'', ''abc'']) of
        Inl e \<Rightarrow> False
      | Inr t \<Rightarrow> (case js_get (model t) ''a'' of
                    None \<Rightarrow> False
                  | Some a \<Rightarrow> (case js_get a ''b'' of
                                None \<Rightarrow> False
                              | Some b \<Rightarrow> \<not> flushed b \<and> map fst (edges b) = [''c''])))"
  by code_simp


subsection \<open>The best next word\<close>

lemma find_filter_implies:
  "\<forall>x \<in> set xs. P x \<longrightarrow> Q x \<Longrightarrow> find P (filter Q xs) = find P xs"
  by (induction xs) auto

lemma first_highest_Cons:
  fixes e :: "string \<times> rat"
  shows "first_highest (e # rest) =
     (if filter (\<lambda>x. snd e < snd x) rest = [] then Some e
      else first_highest (filter (\<lambda>x. snd e < snd x) rest))"
proof (cases "filter (\<lambda>x. snd e < snd x) rest = []")
  case True
  then have le: "\<forall>x \<in> set rest. snd x \<le> snd e"
    by (auto simp: filter_empty_conv)
  have "Max (snd ` set (e # rest)) = snd e"
    by (rule Max_eqI) (use le in auto)
  then show ?thesis using True by (simp add: first_highest_def)
next
  case False
  let ?hi = "filter (\<lambda>x. snd e < snd x) rest"
  let ?M = "Max (snd ` set ?hi)"
  have ne: "snd ` set ?hi \<noteq> {}" using False by (simp only: set_empty image_is_empty) simp
  have Min: "?M \<in> snd ` set ?hi" using ne by (intro Max_in) auto
  then have gt: "snd e < ?M" by auto
  have all: "\<forall>x \<in> set (e # rest). snd x \<le> ?M"
  proof
    fix x assume x: "x \<in> set (e # rest)"
    show "snd x \<le> ?M"
    proof (cases "snd e < snd x")
      case True
      with x have "x \<in> set ?hi" by auto
      then show ?thesis by (intro Max_ge) auto
    next
      case False
      then show ?thesis using gt by simp
    qed
  qed
  have Meq: "Max (snd ` set (e # rest)) = ?M"
  proof (rule Max_eqI)
    show "finite (snd ` set (e # rest))" by simp
    show "\<And>y. y \<in> snd ` set (e # rest) \<Longrightarrow> y \<le> ?M" using all by auto
    show "?M \<in> snd ` set (e # rest)" using Min by auto
  qed
  have "find (\<lambda>x. snd x = ?M) (e # rest) = find (\<lambda>x. snd x = ?M) rest"
    using gt by simp
  also have "\<dots> = find (\<lambda>x. snd x = ?M) ?hi"
    using gt by (intro find_filter_implies [symmetric]) auto
  finally show ?thesis using False Meq by (simp add: first_highest_def)
qed

lemma first_highest_nonempty: "es \<noteq> [] \<Longrightarrow> first_highest es \<noteq> None"
proof -
  assume ne: "es \<noteq> []"
  then have "Max (snd ` set es) \<in> snd ` set es" by (intro Max_in) auto
  then have "\<exists>x \<in> set es. snd x = Max (snd ` set es)" by force
  then have "find (\<lambda>e. snd e = Max (snd ` set es)) es \<noteq> None"
    unfolding find_None_iff by blast
  then show ?thesis using ne by (simp add: first_highest_def)
qed

lemma above_above:
  "maxProbability \<le> p \<Longrightarrow>
   filter (\<lambda>x. p < snd x) (above maxProbability sequence es) = above p sequence es"
  by (induction es) (auto simp: above_def)

lemma scan_above:
  "\<forall>e \<in> set es. snd e \<le> 1 \<Longrightarrow>
   scan sequence es maxProbability w =
     (case first_highest (above maxProbability sequence es) of
        None \<Rightarrow> w
      | Some e \<Rightarrow> last (split_blank (fst e)))"
proof (induction es arbitrary: maxProbability w)
  case Nil
  then show ?case by (simp add: above_def first_highest_def)
next
  case (Cons e es)
  have IH: "scan sequence es p v =
     (case first_highest (above p sequence es) of None \<Rightarrow> v | Some e \<Rightarrow> last (split_blank (fst e)))"
    for p v using Cons by simp
  show ?case
  proof (cases "maxProbability < snd e \<and> prefix_matches sequence (fst e)")
    case False
    then have "above maxProbability sequence (e # es) = above maxProbability sequence es"
      by (simp add: above_def)
    moreover have "scan sequence (e # es) maxProbability w = scan sequence es maxProbability w"
      using False by auto
    ultimately show ?thesis using IH by simp
  next
    case True
    then have ab: "above maxProbability sequence (e # es) = e # above maxProbability sequence es"
      by (simp add: above_def)
    have hi: "filter (\<lambda>x. snd e < snd x) (above maxProbability sequence es) = above (snd e) sequence es"
      using True by (intro above_above) simp
    show ?thesis
    proof (cases "snd e = 1")
      case one: True
      have "above (snd e) sequence es = []"
        using Cons.prems one by (auto simp: above_def filter_empty_conv)
      then show ?thesis using True one ab hi by (simp add: first_highest_Cons)
    next
      case False
      then have "scan sequence (e # es) maxProbability w
                   = scan sequence es (snd e) (last (split_blank (fst e)))"
        using True by simp
      also have "\<dots> = (case first_highest (above (snd e) sequence es) of
                          None \<Rightarrow> last (split_blank (fst e))
                        | Some e \<Rightarrow> last (split_blank (fst e)))"
        by (rule IH)
      finally have sc: "scan sequence (e # es) maxProbability w
                   = (case first_highest (above (snd e) sequence es) of
                          None \<Rightarrow> last (split_blank (fst e))
                        | Some e \<Rightarrow> last (split_blank (fst e)))" .
      show ?thesis
      proof (cases "above (snd e) sequence es = []")
        case True
        then have "first_highest (above (snd e) sequence es) = None"
          by (simp add: first_highest_def)
        then show ?thesis using sc ab hi True by (simp add: first_highest_Cons)
      next
        case False
        then show ?thesis
          using sc ab hi first_highest_nonempty [OF False]
          by (auto simp: first_highest_Cons)
      qed
    qed
  qed
qed

lemma fold_plus_sum_list: "fold (\<lambda>count sum. sum + count) xs (a::nat) = a + sum_list xs"
  by (induction xs arbitrary: a) auto

lemma count_le_total: "e \<in> set grams \<Longrightarrow> snd e \<le> totalNgrams grams"
  by (auto simp: totalNgrams_def fold_plus_sum_list intro: member_le_sum_list)

lemma set_map_set: "set (map_set k v m) \<subseteq> {(k, v)} \<union> set m"
  by (induction m) auto

lemma fold_map_set_values:
  "\<forall>e \<in> set acc. P (snd e) \<Longrightarrow> \<forall>e \<in> set grams. P (f e) \<Longrightarrow>
   \<forall>e \<in> set (fold (\<lambda>e m. map_set (fst e) (f e) m) grams acc). P (snd e)"
proof (induction grams arbitrary: acc)
  case Nil
  then show ?case by simp
next
  case (Cons g grams)
  have "\<forall>e \<in> set (map_set (fst g) (f g) acc). P (snd e)"
    using Cons.prems set_map_set [of "fst g" "f g" acc] by auto
  then show ?case using Cons by simp
qed

lemma probabilities_le_one: "\<forall>e \<in> set (probabilities grams). snd e \<le> 1"
  unfolding probabilities_def
proof (rule fold_map_set_values)
  show "\<forall>e\<in>set []. snd e \<le> (1::rat)" by simp
  show "\<forall>e\<in>set grams. (of_nat (snd e) :: rat) / of_nat (totalNgrams grams) \<le> 1"
  proof
    fix e assume "e \<in> set grams"
    then have "snd e \<le> totalNgrams grams" by (rule count_le_total)
    then have "(of_nat (snd e) :: rat) \<le> of_nat (totalNgrams grams)" by simp
    then show "(of_nat (snd e) :: rat) / of_nat (totalNgrams grams) \<le> 1"
      by (cases "totalNgrams grams = 0") (simp_all add: divide_le_eq_1)
  qed
qed

lemma new_ngram_model_le_one:
  "new_ngram input sz = Inr m \<Longrightarrow> \<forall>e \<in> set (ngram_model m). snd e \<le> 1"
  using probabilities_le_one
  by (fastforce simp: new_ngram_def Let_def split: sum.splits)

text \<open>
  C6. For every model the constructor builds and every sequence, \<open>suggestNextWord\<close>
  returns the last token of the first entry, in the order of the table, that has the highest
  probability among the entries whose leading tokens match the end of the sequence without
  regard to case (and the empty string when there is none); an entry of probability 1 that
  is accepted ends the scan at once; and for the tokens a b a c a b a c with size 2 the table
  is a b: 2/7, b a: 2/7, a c: 2/7, c a: 1/7, its probabilities sum to 1 and the word
  suggested after a is b.
\<close>

theorem suggestNextWord_first_highest:
  "(new_ngram input sz = Inr m \<longrightarrow>
      suggestNextWord m sequence False = best_match sequence (ngram_model m))
   \<and> (maxProbability < 1 \<and> prefix_matches sequence g \<longrightarrow>
      scan sequence ((g, 1) # rest) maxProbability w = last (split_blank g))
   \<and> new_ngram (Str ''a b a c a b a c'') (SizeNumber (Finite 2)) = Inr bigram_example
   \<and> sum_list (map snd (ngram_model bigram_example)) = 1
   \<and> suggestNextWord bigram_example ''a'' False = ''b''"
proof -
  have a: "suggestNextWord m sequence False = best_match sequence (ngram_model m)"
    if "new_ngram input sz = Inr m"
    using scan_above [OF new_ngram_model_le_one [OF that], of sequence 0 "[]"]
    by (simp add: suggestNextWord_def best_match_def matching_def above_def)
  have b: "new_ngram (Str ''a b a c a b a c'') (SizeNumber (Finite 2)) = Inr bigram_example"
    by code_simp
  have c: "sum_list (map snd (ngram_model bigram_example)) = 1"
    by code_simp
  have d: "suggestNextWord bigram_example ''a'' False = ''b''"
    by code_simp
  show ?thesis using a b c d by simp
qed

theorem suggestNextWord_first_highest_witness:
  "new_ngram (Str ''a b a c a b a c'') (SizeNumber (Finite 2)) = Inr bigram_example
   \<and> matching ''a'' (ngram_model bigram_example) = [(''a b'', 2 / 7), (''a c'', 2 / 7)]
   \<and> best_match ''a'' (ngram_model bigram_example) = ''b''
   \<and> suggestNextWord bigram_example ''a'' False = best_match ''a'' (ngram_model bigram_example)"
proof -
  have a: "new_ngram (Str ''a b a c a b a c'') (SizeNumber (Finite 2)) = Inr bigram_example"
    by code_simp
  have b: "matching ''a'' (ngram_model bigram_example) = [(''a b'', 2 / 7), (''a c'', 2 / 7)]"
    by code_simp
  have c: "best_match ''a'' (ngram_model bigram_example) = ''b''"
    by code_simp
  show ?thesis
    using suggestNextWord_first_highest [of "Str ''a b a c a b a c''" "SizeNumber (Finite 2)"
        bigram_example "''a''"] a b c
    by simp
qed

subsection \<open>The cached suggestion\<close>

lemma cache_example_built:
  "new_ngram (Str ''the cat sat on the mat.'') (SizeNumber (Finite 2)) = Inr cache_example"
  by code_simp

text \<open>
  C8 (as it stands). The claim says that a longer prefix of the cached suggestion always gets
  the cached suggestion back. After \<open>complete\<close> of the with three words has cached
  the cat sat on, \<open>complete\<close> of the cat with one word computes the cat sat, stores it
  in place of the cached suggestion and returns it.
\<close>

theorem cached_suggestion_replaced:
  "complete_ngram cache_example (Str ''the'') 3
     = Inr (''the cat sat on'', cache_example\<lparr>lookup := ''the cat sat on''\<rparr>)
   \<and> length ''the'' < length ''the cat''
   \<and> startsWith ''the cat sat on'' ''the cat''
   \<and> complete_ngram (cache_example\<lparr>lookup := ''the cat sat on''\<rparr>) (Str ''the cat'') 1
     = Inr (''the cat sat'', cache_example\<lparr>lookup := ''the cat sat''\<rparr>)"
  by code_simp

text \<open>
  C8 (amended). When the cache holds a suggestion \<open>S\<close> that starts with the non-empty
  prefix, \<open>complete\<close> returns \<open>S\<close> and leaves the cache as it is provided that the
  candidate computed for the prefix is the prefix itself, is \<open>S\<close>, or does not start
  with the prefix; otherwise the candidate replaces \<open>S\<close> in the cache and is returned.
\<close>

theorem cached_suggestion_rule:
  assumes "lookup m = S" and "S \<noteq> []" and "pfx \<noteq> []" and "startsWith S pfx"
  shows "complete_ngram m (Str pfx) maxWords =
     (if candidate_of m pfx maxWords = pfx \<or> candidate_of m pfx maxWords = S
         \<or> \<not> startsWith (candidate_of m pfx maxWords) pfx
      then Inr (S, m)
      else Inr (candidate_of m pfx maxWords, m\<lparr>lookup := candidate_of m pfx maxWords\<rparr>))"
  using assms by (auto simp: complete_ngram_def candidate_of_def Let_def)

theorem cached_suggestion_rule_witness:
  "lookup (cache_example\<lparr>lookup := ''the cat sat on''\<rparr>) = ''the cat sat on''
   \<and> ''the cat sat on'' \<noteq> [] \<and> ''the c'' \<noteq> []
   \<and> startsWith ''the cat sat on'' ''the c''
   \<and> candidate_of (cache_example\<lparr>lookup := ''the cat sat on''\<rparr>) ''the c'' 3 = ''the c''
   \<and> complete_ngram (cache_example\<lparr>lookup := ''the cat sat on''\<rparr>) (Str ''the c'') 3
       = Inr (''the cat sat on'', cache_example\<lparr>lookup := ''the cat sat on''\<rparr>)"
proof -
  have a: "startsWith ''the cat sat on'' ''the c''" by code_simp
  have b: "candidate_of (cache_example\<lparr>lookup := ''the cat sat on''\<rparr>) ''the c'' 3 = ''the c''"
    by code_simp
  show ?thesis
    using cached_suggestion_rule [of "cache_example\<lparr>lookup := ''the cat sat on''\<rparr>"
        "''the cat sat on''" "''the c''" 3] a b
    by simp
qed


subsection \<open>Completions are inserted words\<close>

lemma set_replace_value: "set (replace_value k v es) \<subseteq> {(k, v)} \<union> set es"
  by (induction es) auto

lemma set_insert_index: "set (insert_index k v es) = {(k, v)} \<union> set es"
  by (induction es) auto

lemma set_put_entry: "set (put_entry k v es) \<subseteq> {(k, v)} \<union> set es"
  using set_replace_value [of k v es] by (auto simp: put_entry_def set_insert_index)

lemma set_delete_entry: "set (delete_entry k es) \<subseteq> set es"
  by (auto simp: delete_entry_def)

lemma map_of_replace_value: "k' \<noteq> k \<Longrightarrow> map_of (replace_value k v es) k' = map_of es k'"
  by (induction es) auto

lemma map_of_insert_index: "k' \<noteq> k \<Longrightarrow> map_of (insert_index k v es) k' = map_of es k'"
  by (induction es) auto

lemma map_of_snoc: "k' \<noteq> k \<Longrightarrow> map_of (es @ [(k, v)]) k' = map_of es k'"
  by (induction es) auto

lemma map_of_put_entry: "k' \<noteq> k \<Longrightarrow> map_of (put_entry k v es) k' = map_of es k'"
  by (simp add: put_entry_def map_of_replace_value map_of_insert_index map_of_snoc
        del: map_of_append)

lemma map_of_delete_entry: "k' \<noteq> k \<Longrightarrow> map_of (delete_entry k es) k' = map_of es k'"
  by (induction es) (auto simp: delete_entry_def)

lemma flushed_put_entry: "k \<noteq> ''flush'' \<Longrightarrow> flushed (JObj (put_entry k v es)) = flushed (JObj es)"
  by (simp add: flushed_def js_get_def map_of_put_entry)

lemma flushed_delete_entry: "k \<noteq> ''flush'' \<Longrightarrow> flushed (JObj (delete_entry k es)) = flushed (JObj es)"
  by (simp add: flushed_def js_get_def map_of_delete_entry)

lemma flushed_replace_value: "k \<noteq> ''flush'' \<Longrightarrow> flushed (JObj (replace_value k v es)) = flushed (JObj es)"
  by (simp add: flushed_def js_get_def map_of_replace_value)

lemma spells_primitive: "\<not> is_object v \<Longrightarrow> \<not> spells v w"
  by (cases v) (auto simp: flushed_def js_get_def elim: spells.cases)

lemma spells_empty_object: "\<not> spells (JObj []) w"
  by (auto simp: flushed_def js_get_def elim: spells.cases)

lemma spells_object_cases:
  assumes "spells (JObj es) w"
  obtains "flushed (JObj es)" "w = []"
  | k child w' where "(k, child) \<in> set es" "spells child w'" "w = k @ w'"
  using assms by (auto elim: spells.cases)

lemma spells_entry:
  "(k, child) \<in> set es \<Longrightarrow> spells child w' \<Longrightarrow> w = k @ w' \<Longrightarrow> spells (JObj es) w"
  using spells.step [of k child "JObj es" w'] by simp

lemma insert_chars_spells:
  "insert_chars cs i node = Inr node' \<Longrightarrow> spells node' w \<Longrightarrow> spells node w \<or> w = cs"
proof (induction cs i node arbitrary: node' w rule: insert_chars.induct)
  case (1 i es)
  then have node': "node' = JObj (put_entry ''index'' (JNum i) (put_entry ''flush'' (JBool True) es))"
    by simp
  from "1.prems"(2) show ?case unfolding node'
  proof (cases rule: spells_object_cases)
    case 1
    then show ?thesis by simp
  next
    case (2 k child w')
    then have "(k, child) \<in> {(''index'', JNum i), (''flush'', JBool True)} \<union> set es"
      using set_put_entry [of "''index''" "JNum i" "put_entry ''flush'' (JBool True) es"]
        set_put_entry [of "''flush''" "JBool True" es] by auto
    moreover have "is_object child" using 2(2) spells_primitive by blast
    ultimately have "(k, child) \<in> set es" by auto
    then show ?thesis using 2 by (auto intro: spells_entry)
  qed
next
  case (2 c cs i es)
  define child0 where "child0 = (case map_of es [c] of None \<Rightarrow> JObj [] | Some child \<Rightarrow> child)"
  from "2.prems"(1) obtain child' where
    ins: "insert_chars cs i child0 = Inr child'" and node': "node' = JObj (put_entry [c] child' es)"
    by (auto simp: child0_def split: sum.splits)
  from "2.prems"(2) show ?case unfolding node'
  proof (cases rule: spells_object_cases)
    case 1
    then have "flushed (JObj es)" by (simp add: flushed_put_entry)
    then show ?thesis using 1 by (auto intro: spells.here)
  next
    case (2 k child w')
    then consider "(k, child) \<in> set es" | "k = [c]" "child = child'"
      using set_put_entry [of "[c]" child' es] by auto
    then show ?thesis
    proof cases
      case 1
      then show ?thesis using 2 by (auto intro: spells_entry)
    next
      case b: 2
      have "spells child0 w' \<or> w' = cs"
        using "2.IH" [OF ins [unfolded child0_def]] 2(2) b by (simp add: child0_def)
      then show ?thesis
      proof
        assume s: "spells child0 w'"
        then obtain ch where "map_of es [c] = Some ch" "child0 = ch"
          using spells_empty_object by (auto simp: child0_def split: option.splits)
        then have "([c], child0) \<in> set es" by (auto dest: map_of_SomeD)
        then show ?thesis using s 2 b by (auto intro: spells_entry)
      next
        assume "w' = cs"
        then show ?thesis using 2 b by simp
      qed
    qed
  qed
qed simp_all


inductive_cases plain_objectE: "plain (JObj es)"

lemma plain_entry:
  "plain (JObj es) \<Longrightarrow> (k, v) \<in> set es \<Longrightarrow>
   (if is_object v then length k = 1 \<and> plain v else k = ''flush'' \<or> k = ''index'')"
  by (erule plain_objectE) blast

lemma not_skipped_object: "\<not> skipped v \<Longrightarrow> is_object v \<and> \<not> flushed v"
  by (simp add: skipped_def)

lemma compress_spells:
  "plain node \<Longrightarrow> spells (compress node) w \<Longrightarrow> spells node w"
proof (induction node arbitrary: w rule: compress.induct)
  case (1 es)
  define f where "f = (\<lambda>e (cur, written).
        if skipped (snd e) then (cur, written)
        else (case entries (snd e) of
                [g] \<Rightarrow> (delete_entry (fst e)
                           (put_entry (fst e @ fst g)
                              (if skipped (snd g) then snd g else compress (snd g)) cur),
                        (fst e @ fst g) # written)
              | _ \<Rightarrow> (if fst e \<in> set written then cur
                       else replace_value (fst e) (compress (snd e)) cur, written)))"
  define Inv where "Inv = (\<lambda>st :: (string \<times> jsval) list \<times> string list.
        \<forall>w. spells (JObj (fst st)) w \<longrightarrow> spells (JObj es) w)"
  have pl: "plain (JObj es)" by fact
  have one: "Inv (f x st)" if x: "x \<in> set es" and inv: "Inv st" for x st
  proof (cases "skipped (snd x)")
    case True
    then show ?thesis using inv by (cases st) (simp add: f_def)
  next
    case False
    obtain cur written where st: "st = (cur, written)" by (cases st)
    obtain key child where xe: "x = (key, child)" by (cases x)
    have obj: "is_object child" using False xe not_skipped_object by auto
    have key: "length key = 1" and plc: "plain child"
      using plain_entry [OF pl, of key child] x xe obj by auto
    have keyf: "key \<noteq> ''flush''" using key by auto
    have below: "spells (JObj es) (key @ w')" if "spells child w'" for w'
      using that x xe by (auto intro: spells_entry)
    have rec: "spells (compress child) w' \<Longrightarrow> spells child w'"
      if ng: "\<And>g. entries child \<noteq> [g]" for w'
    proof (cases "entries child")
      case Nil
      assume "spells (compress child) w'"
      then show ?thesis using "1.IH"(1) [where xb = "[]"] x xe False Nil plc by fastforce
    next
      case (Cons a as)
      assume sp: "spells (compress child) w'"
      from ng [of a] Cons obtain b bs where "as = b # bs" by (cases as) auto
      then show ?thesis
        using "1.IH"(3) [where xb = "[]"] x xe False Cons plc sp by fastforce
    qed
    show ?thesis
    proof (cases "\<exists>g. entries child = [g]")
      case True
      then obtain k0 G where g: "entries child = [(k0, G)]" by auto
      define G' where "G' = (if skipped G then G else compress G)"
      have fx: "f x st = (delete_entry key (put_entry (key @ k0) G' cur), (key @ k0) # written)"
        using False g by (simp add: f_def st xe G'_def)
      have G: "(if is_object G then length k0 = 1 \<and> plain G else k0 = ''flush'' \<or> k0 = ''index'')"
        using plc g obj by (cases child) (auto dest: plain_entry)
      have k0f: "key @ k0 \<noteq> ''flush''"
        using G key by (auto simp: length_Suc_conv split: if_splits)
      have G'sp: "spells G w'" if "spells G' w'" for w'
      proof (cases "skipped G")
        case True
        then show ?thesis using that by (simp add: G'_def)
      next
        case nsk: False
        then have "is_object G" using not_skipped_object by auto
        then have "plain G" using G by simp
        then show ?thesis
          using "1.IH"(2) x xe False g nsk that
          by (fastforce simp: G'_def)
      qed
      have childsp: "spells child (k0 @ w')" if "spells G w'" for w'
        using that g spells.step [of k0 G child w'] by simp
      have "spells (JObj es) w"
        if sp: "spells (JObj (delete_entry key (put_entry (key @ k0) G' cur))) w" for w
        using sp
      proof (cases rule: spells_object_cases)
        case 1
        then have "flushed (JObj cur)"
          using keyf k0f by (simp add: flushed_delete_entry flushed_put_entry)
        then have "spells (JObj cur) w" using 1 by (auto intro: spells.here)
        then show ?thesis using inv by (simp add: Inv_def st)
      next
        case (2 k ch w')
        then have "(k, ch) \<in> {(key @ k0, G')} \<union> set cur"
          using set_delete_entry [of key "put_entry (key @ k0) G' cur"]
            set_put_entry [of "key @ k0" G' cur] by blast
        then show ?thesis
        proof
          assume "(k, ch) \<in> {(key @ k0, G')}"
          then have "spells G w'" "k = key @ k0" using 2 G'sp by auto
          then show ?thesis using below [OF childsp] 2 by simp
        next
          assume "(k, ch) \<in> set cur"
          then have "spells (JObj cur) w" using 2 by (auto intro: spells_entry)
          then show ?thesis using inv by (simp add: Inv_def st)
        qed
      qed
      then show ?thesis by (simp add: Inv_def fx)
    next
      case F: False
      then have ng: "\<And>g. entries child \<noteq> [g]" by auto
      have fx: "fst (f x st) = (if key \<in> set written then cur
                       else replace_value key (compress child) cur)"
        using False ng by (cases "entries child" rule: list.exhaust [case_names Nil Cons])
          (auto simp: f_def st xe split: list.splits)
      have "spells (JObj es) w" if sp: "spells (JObj (replace_value key (compress child) cur)) w" for w
        using sp
      proof (cases rule: spells_object_cases)
        case 1
        then have "flushed (JObj cur)" using keyf by (simp add: flushed_replace_value)
        then have "spells (JObj cur) w" using 1 by (auto intro: spells.here)
        then show ?thesis using inv by (simp add: Inv_def st)
      next
        case (2 k ch w')
        then have "(k, ch) \<in> {(key, compress child)} \<union> set cur"
          using set_replace_value [of key "compress child" cur] by blast
        then show ?thesis
        proof
          assume "(k, ch) \<in> {(key, compress child)}"
          then have "spells child w'" "k = key" using 2 rec [OF ng] by auto
          then show ?thesis using below 2 by simp
        next
          assume "(k, ch) \<in> set cur"
          then have "spells (JObj cur) w" using 2 by (auto intro: spells_entry)
          then show ?thesis using inv by (simp add: Inv_def st)
        qed
      qed
      then show ?thesis using inv fx by (auto simp: Inv_def st)
    qed
  qed
  have all: "Inv (fold f xs st)" if "set xs \<subseteq> set es" "Inv st" for xs st
    using that
  proof (induction xs arbitrary: st)
    case Nil
    then show ?case by simp
  next
    case (Cons x xs)
    have "Inv (f x st)" using Cons.prems by (intro one) auto
    then show ?case using Cons by simp
  qed
  have "Inv (fold f es (es, []))" by (rule all) (simp_all add: Inv_def)
  moreover have "compress (JObj es) = JObj (fst (fold f es (es, [])))"
    by (simp add: f_def)
  ultimately show ?case using "1.prems"(2) by (simp add: Inv_def)
qed (simp_all)


lemma plain_empty: "plain (JObj [])"
  by (rule plain.object) simp

lemma insert_chars_object:
  "insert_chars cs i node = Inr node' \<Longrightarrow> is_object node \<and> is_object node'"
  by (cases cs; cases node) (auto split: sum.splits)

lemma insert_chars_plain:
  "insert_chars cs i node = Inr node' \<Longrightarrow> plain node \<Longrightarrow> plain node'"
proof (induction cs i node arbitrary: node' rule: insert_chars.induct)
  case (1 i es)
  then have node': "node' = JObj (put_entry ''index'' (JNum i) (put_entry ''flush'' (JBool True) es))"
    by simp
  show ?case unfolding node'
  proof (rule plain.object)
    fix k v
    assume "(k, v) \<in> set (put_entry ''index'' (JNum i) (put_entry ''flush'' (JBool True) es))"
    then have "(k, v) \<in> {(''index'', JNum i), (''flush'', JBool True)} \<union> set es"
      using set_put_entry [of "''index''" "JNum i" "put_entry ''flush'' (JBool True) es"]
        set_put_entry [of "''flush''" "JBool True" es] by auto
    then show "if is_object v then length k = 1 \<and> plain v else k = ''flush'' \<or> k = ''index''"
      using plain_entry [OF "1.prems"(2), of k v] by auto
  qed
next
  case (2 c cs i es)
  define child0 where "child0 = (case map_of es [c] of None \<Rightarrow> JObj [] | Some child \<Rightarrow> child)"
  from "2.prems"(1) obtain child' where
    ins: "insert_chars cs i child0 = Inr child'" and node': "node' = JObj (put_entry [c] child' es)"
    by (auto simp: child0_def split: sum.splits)
  have obj': "is_object child'" using insert_chars_object [OF ins] by simp
  have "plain child0"
  proof (cases "map_of es [c]")
    case None
    then show ?thesis by (simp add: child0_def plain_empty)
  next
    case (Some ch)
    then have "([c], ch) \<in> set es" by (auto dest: map_of_SomeD)
    moreover have "is_object ch" using insert_chars_object [OF ins] Some by (simp add: child0_def)
    ultimately show ?thesis using plain_entry [OF "2.prems"(2), of "[c]" ch] Some
      by (simp add: child0_def)
  qed
  then have pl': "plain child'" using "2.IH" [OF ins [unfolded child0_def]] by (simp add: child0_def)
  show ?case unfolding node'
  proof (rule plain.object)
    fix k v
    assume "(k, v) \<in> set (put_entry [c] child' es)"
    then have "(k, v) \<in> {([c], child')} \<union> set es" using set_put_entry [of "[c]" child' es] by auto
    then show "if is_object v then length k = 1 \<and> plain v else k = ''flush'' \<or> k = ''index''"
      using plain_entry [OF "2.prems"(2), of k v] obj' pl' by auto
  qed
qed simp_all

lemma insert_word_spells:
  assumes "insert_word a t = Inr t'" "spells (model t') w"
  shows "spells (model t) w \<or> w = toLowerCase a"
  using assms insert_chars_spells [of "toLowerCase a" "Suc (index t)" "model t" "model t'" w]
  by (auto simp: insert_word_def split: sum.splits)

lemma insert_word_plain:
  assumes "insert_word a t = Inr t'" "plain (model t)"
  shows "plain (model t')"
  using assms insert_chars_plain [of "toLowerCase a" "Suc (index t)" "model t" "model t'"]
  by (auto simp: insert_word_def split: sum.splits)

lemma insert_all_spells:
  "insert_all ws t = Inr t' \<Longrightarrow> spells (model t') w \<Longrightarrow>
   spells (model t) w \<or> w \<in> toLowerCase ` set ws"
proof (induction ws arbitrary: t)
  case Nil
  then show ?case by simp
next
  case (Cons a ws)
  then obtain t1 where t1: "insert_word a t = Inr t1" "insert_all ws t1 = Inr t'"
    by (auto split: sum.splits)
  then have "spells (model t1) w \<or> w \<in> toLowerCase ` set ws" using Cons by blast
  then show ?case using insert_word_spells [OF t1(1), of w] by auto
qed

lemma insert_all_plain:
  "insert_all ws t = Inr t' \<Longrightarrow> plain (model t) \<Longrightarrow> plain (model t')"
proof (induction ws arbitrary: t)
  case Nil
  then show ?case by simp
next
  case (Cons a ws)
  then obtain t1 where t1: "insert_word a t = Inr t1" "insert_all ws t1 = Inr t'"
    by (auto split: sum.splits)
  then show ?case using Cons insert_word_plain [OF t1(1)] by blast
qed

lemma new_trie_spells:
  assumes "new_trie input = Inr t" "spells (model t) w"
  shows "w \<in> toLowerCase ` input_words input"
proof -
  let ?t0 = "\<lparr>model = JObj [], index = 0\<rparr>"
  from assms(1) obtain t1 where t1: "tokenize_trie input ?t0 = Inr t1"
    and t: "t = t1\<lparr>model := compress (model t1)\<rparr>"
    by (auto simp: new_trie_def split: sum.splits)
  have p0: "plain (model ?t0)" by (simp add: plain_empty)
  have s0: "\<not> spells (model ?t0) w" by (simp add: spells_empty_object)
  have "plain (model t1) \<and> (spells (model t1) w \<longrightarrow> w \<in> toLowerCase ` input_words input)"
  proof (cases input)
    case (InputString x)
    then show ?thesis
      using t1 insert_word_plain [OF _ p0, of x t1] insert_word_spells [of x ?t0 t1 w] s0 by auto
  next
    case (InputArray ws)
    then show ?thesis
      using t1 insert_all_plain [OF _ p0, of ws t1] insert_all_spells [of ws ?t0 t1 w] s0 by auto
  next
    case InputNullish
    then show ?thesis using t1 by simp
  next
    case InputOther
    then show ?thesis using t1 by simp
  qed
  then show ?thesis using assms(2) compress_spells [of "model t1" w] by (auto simp: t)
qed


lemma findWords_sound:
  "set (findWords w maxWord node list) \<subseteq> set list \<union> {w @ p | p. spells node p}"
proof (induction w maxWord node list rule: findWords.induct)
  case (1 w maxWord node list)
  show ?case
  proof (cases "length_reaches (length list) maxWord")
    case True
    then show ?thesis by (subst findWords.simps) simp
  next
    case False
    define start where "start = (if flushed node then list @ [w] else list)"
    define R where "R = set list \<union> {w @ p | p. spells node p}"
    have start: "set start \<subseteq> R"
      using spells.here [of node] by (auto simp: start_def R_def)
    have fold: "set (fold (\<lambda>e l. findWords (w @ fst e) maxWord (snd e) l) es l) \<subseteq> R"
      if "set es \<subseteq> set (entries node)" "set l \<subseteq> R" for es l
      using that
    proof (induction es arbitrary: l)
      case Nil
      then show ?case by simp
    next
      case (Cons e es)
      have e: "(fst e, snd e) \<in> set (entries node)" using Cons.prems by simp
      have "set (findWords (w @ fst e) maxWord (snd e) l)
              \<subseteq> set l \<union> {(w @ fst e) @ p | p. spells (snd e) p}"
        using "1.IH" [of e l] False Cons.prems by simp
      moreover have "{(w @ fst e) @ p | p. spells (snd e) p} \<subseteq> R"
        using spells.step [OF e] by (auto simp: R_def)
      ultimately have "set (findWords (w @ fst e) maxWord (snd e) l) \<subseteq> R"
        using Cons.prems(2) by blast
      then show ?case using Cons by simp
    qed
    have "findWords w maxWord node list
            = fold (\<lambda>e l. findWords (w @ fst e) maxWord (snd e) l) (entries node) start"
      using False by (subst findWords.simps) (simp add: start_def)
    then show ?thesis using fold [of "entries node" start] start by (simp add: R_def)
  qed
qed

lemma findWords_length:
  "0 \<le> q \<Longrightarrow>
   int (length (findWords w (Finite q) node list)) \<le> max (int (length list)) \<lceil>q\<rceil>"
proof (induction w "Finite q" node list rule: findWords.induct)
  case (1 w node list)
  show ?case
  proof (cases "length_reaches (length list) (Finite q)")
    case True
    then show ?thesis by (subst findWords.simps) simp
  next
    case False
    define start where "start = (if flushed node then list @ [w] else list)"
    have "rat_of_int (int (length list)) < q" using False by simp
    then have "int (length list) < \<lceil>q\<rceil>" by (simp only: less_ceiling_iff)
    then have start: "int (length start) \<le> \<lceil>q\<rceil>" by (simp add: start_def)
    have fold: "int (length (fold (\<lambda>e l. findWords (w @ fst e) (Finite q) (snd e) l) es l)) \<le> \<lceil>q\<rceil>"
      if "set es \<subseteq> set (entries node)" "int (length l) \<le> \<lceil>q\<rceil>" for es l
      using that
    proof (induction es arbitrary: l)
      case Nil
      then show ?case by simp
    next
      case (Cons e es)
      have "int (length (findWords (w @ fst e) (Finite q) (snd e) l)) \<le> max (int (length l)) \<lceil>q\<rceil>"
        using "1.hyps" [of e l] False Cons.prems "1.prems" by simp
      then have "int (length (findWords (w @ fst e) (Finite q) (snd e) l)) \<le> \<lceil>q\<rceil>"
        using Cons.prems(2) by simp
      then show ?case using Cons by simp
    qed
    have "findWords w (Finite q) node list
            = fold (\<lambda>e l. findWords (w @ fst e) (Finite q) (snd e) l) (entries node) start"
      using False by (subst findWords.simps) (simp add: start_def)
    then show ?thesis using fold [of "entries node" start] start by simp
  qed
qed

lemma edge_matches_step:
  assumes "idx < length pl" "mp = take idx pl" "edge_matches (drop idx pl) (key, child)"
  shows "if idx + length key < length pl then mp @ key = take (idx + length key) pl
         else prefix pl (mp @ key)"
proof -
  let ?seg = "drop idx pl"
  have pl: "pl = mp @ ?seg" using assms(2) by simp
  from assms(3) consider "take (length ?seg) key = ?seg" | "take (length key) ?seg = key"
    by (auto simp: edge_matches_def startsWith_def)
  then show ?thesis
  proof cases
    case 1
    then have "prefix ?seg key" by (metis take_is_prefix)
    then have p: "prefix pl (mp @ key)" using pl by (metis same_prefix_prefix)
    have "length ?seg \<le> length key" using arg_cong [OF 1, of length] by simp
    then have "\<not> idx + length key < length pl" by simp
    then show ?thesis using p by simp
  next
    case 2
    show ?thesis
    proof (cases "idx + length key < length pl")
      case True
      have "take (idx + length key) pl = take idx pl @ take (length key) ?seg"
        by (simp add: take_add)
      then show ?thesis using True 2 assms(2) by simp
    next
      case False
      then have "length ?seg \<le> length key" by simp
      then have "key = ?seg" using 2 by (metis take_all)
      then show ?thesis using False pl by simp
    qed
  qed
qed

lemma descend_sound:
  "descend pl idx mp node = Some (mp', node') \<Longrightarrow>
   length mp = idx \<Longrightarrow> (if idx < length pl then mp = take idx pl else prefix pl mp) \<Longrightarrow>
   prefix pl mp' \<and> (\<exists>ks. mp' = mp @ ks \<and> (\<forall>p. spells node' p \<longrightarrow> spells node (ks @ p)))"
proof (induction pl idx mp node rule: descend.induct)
  case (1 pl idx mp node)
  show ?case
  proof (cases "idx < length pl")
    case False
    then have "mp' = mp" "node' = node" using "1.prems"(1) by (simp_all add: descend.simps)
    then show ?thesis using False "1.prems"(3) by simp
  next
    case True
    then obtain e where f: "find (edge_matches (drop idx pl)) (entries node) = Some e"
      and ne: "fst e \<noteq> []"
      and d: "descend pl (idx + length (fst e)) (mp @ fst e) (snd e) = Some (mp', node')"
      using "1.prems"(1) by (subst (asm) descend.simps) (auto split: option.splits if_splits)
    have mem: "(fst e, snd e) \<in> set (entries node)" and em: "edge_matches (drop idx pl) (fst e, snd e)"
      using f by (auto simp: find_Some_iff)
    have mp: "mp = take idx pl" using True "1.prems"(3) by simp
    have inv: "if idx + length (fst e) < length pl
               then mp @ fst e = take (idx + length (fst e)) pl else prefix pl (mp @ fst e)"
      using edge_matches_step [OF True mp em] .
    have "prefix pl mp' \<and> (\<exists>ks. mp' = (mp @ fst e) @ ks
            \<and> (\<forall>p. spells node' p \<longrightarrow> spells (snd e) (ks @ p)))"
      using "1.IH" [OF True f ne d] "1.prems"(2) inv by simp
    then obtain ks where p: "prefix pl mp'" and ks: "mp' = (mp @ fst e) @ ks"
      and sp: "\<forall>p. spells node' p \<longrightarrow> spells (snd e) (ks @ p)" by blast
    have "\<forall>p. spells node' p \<longrightarrow> spells node ((fst e @ ks) @ p)"
      using sp spells.step [OF mem] by simp
    then show ?thesis using p ks by (intro conjI exI [of _ "fst e @ ks"]) simp_all
  qed
qed


text \<open>
  C10 (as it stands). The claim says that \<open>complete\<close> never returns more than \<open>maxWords\<close>
  words, for every \<open>maxWords\<close>. With the cap 1.5 on the trie built from car, cat, pot the
  test \<open>list.length >= maxWord\<close> stops after the second word: \<open>complete\<close> returns two
  words.
\<close>

theorem complete_exceeds_fractional_cap:
  "complete example_trie (Str ''ca'') (Finite (3 / 2)) = Inr (Words [''car'', ''cat''])
   \<and> \<not> rat_of_nat (length [''car'', ''cat'']) \<le> 3 / 2"
proof -
  have "complete example_trie (Str ''ca'') (Finite (3 / 2)) = Inr (Words [''car'', ''cat''])"
    by code_simp
  then show ?thesis by simp
qed

text \<open>
  C10 (amended). For every trie the constructor builds, every string prefix and every number
  \<open>maxWord\<close>: each word \<open>complete\<close> returns is the lower-case form of a word of the input
  and starts with the lower-case prefix; and when \<open>maxWord\<close> is finite and not negative,
  \<open>complete\<close> returns at most \<open>maxWord\<close> rounded up to a whole number of words, which is
  \<open>maxWord\<close> itself when it is whole.
\<close>

theorem complete_returns_inserted_words:
  assumes "new_trie input = Inr t" and "complete t (Str pfx) maxWord = Inr r"
  shows "(\<forall>w \<in> set (words_of r).
            w \<in> toLowerCase ` input_words input \<and> startsWith w (toLowerCase pfx))
         \<and> (\<forall>q. maxWord = Finite q \<and> 0 \<le> q \<longrightarrow> int (length (words_of r)) \<le> \<lceil>q\<rceil>)"
proof (cases "pfx = [] \<or> descend (toLowerCase pfx) 0 [] (model t) = None")
  case True
  then have "r = no_match maxWord" using assms(2) by (auto simp: complete_def split: if_splits)
  then show ?thesis by (auto simp: no_match_def)
next
  case False
  then obtain mp node where d: "descend (toLowerCase pfx) 0 [] (model t) = Some (mp, node)"
    by auto
  define match where "match = findWords mp maxWord node []"
  have r: "r = (if above_one maxWord then Words match
                else (case match of [] \<Rightarrow> Undefined | w # ws \<Rightarrow> Word w))"
    using assms(2) False d by (auto simp: complete_def match_def Let_def split: if_splits)
  have "prefix (toLowerCase pfx) mp
        \<and> (\<exists>ks. mp = [] @ ks \<and> (\<forall>p. spells node p \<longrightarrow> spells (model t) (ks @ p)))"
    using False by (intro descend_sound [OF d]) auto
  then have pm: "prefix (toLowerCase pfx) mp"
    and below: "\<And>p. spells node p \<Longrightarrow> spells (model t) (mp @ p)" by auto
  have sound: "w \<in> toLowerCase ` input_words input \<and> startsWith w (toLowerCase pfx)"
    if "w \<in> set match" for w
  proof -
    from that obtain p where w: "w = mp @ p" and sp: "spells node p"
      using findWords_sound [of mp maxWord node "[]"] by (auto simp: match_def)
    have "w \<in> toLowerCase ` input_words input"
      using new_trie_spells [OF assms(1) below [OF sp]] w by simp
    moreover have "prefix (toLowerCase pfx) w" using pm w by (simp add: prefix_prefix)
    then have "startsWith w (toLowerCase pfx)" by (auto simp: startsWith_def prefix_def)
    ultimately show ?thesis by simp
  qed
  have sub: "set (words_of r) \<subseteq> set match" by (auto simp: r split: list.splits)
  have short: "length (words_of r) \<le> length match" by (auto simp: r split: list.splits)
  have cap: "int (length (words_of r)) \<le> \<lceil>q\<rceil>" if "maxWord = Finite q" "0 \<le> q" for q
  proof -
    have "int (length match) \<le> max 0 \<lceil>q\<rceil>"
      using findWords_length [OF that(2), of mp node "[]"] that(1) by (simp add: match_def)
    moreover have "0 \<le> \<lceil>q\<rceil>" using that(2) by simp
    ultimately show ?thesis using short by simp
  qed
  show ?thesis using sound sub cap by blast
qed

theorem complete_returns_inserted_words_witness:
  "new_trie (InputArray [''Car'', ''cat'', ''pot'']) = Inr example_trie
   \<and> complete example_trie (Str ''CA'') (Finite (3 / 2)) = Inr (Words [''car'', ''cat''])
   \<and> list_all (\<lambda>w. w \<in> toLowerCase ` input_words (InputArray [''Car'', ''cat'', ''pot''])
                    \<and> startsWith w (toLowerCase ''CA'')) [''car'', ''cat'']
   \<and> (0::rat) \<le> 3 / 2
   \<and> int (length [''car'', ''cat'']) \<le> \<lceil>3 / 2 :: rat\<rceil>"
proof -
  have a: "new_trie (InputArray [''Car'', ''cat'', ''pot'']) = Inr example_trie" by code_simp
  have b: "complete example_trie (Str ''CA'') (Finite (3 / 2)) = Inr (Words [''car'', ''cat''])"
    by code_simp
  show ?thesis
    using complete_returns_inserted_words [OF a b] a b by (simp add: list_all_iff)
qed


subsection \<open>Construction of the language model\<close>

text \<open>
  C5 (as it stands). The claim says that a size that is not an integer, such as 2.5, is
  rejected and that a token array is accepted. The code accepts the size 2.5 and rejects
  the array.
\<close>

theorem fractional_size_accepted:
  "new_ngram (Str ''a b c'') (SizeNumber (Finite (5 / 2)))
     = Inr \<lparr>ngram_size = Finite (5 / 2), ngram_model = [(''a b'', 1)], lookup = []\<rparr>
   \<and> new_ngram (Arr [''a'', ''b'', ''c'']) (SizeNumber (Finite 2)) = Inl InvalidConstructor"
  by code_simp

text \<open>
  C5 (amended). The construction succeeds when the input is a string and the size is
  \<open>undefined\<close> (then 4) or a finite positive number, whole or not. It fails in \<open>tokenize\<close>
  when the input is not a string, a token array included, and it fails in \<open>tabulate\<close> when
  the input is a string and the size is not a number or is a number \<open>\<le> 0\<close>; a failure
  returns no instance.
\<close>

theorem new_ngram_construction:
  "(\<not> is_string input \<longrightarrow> new_ngram input sz = Inl InvalidConstructor)
   \<and> (is_string input \<and> positive_size sz \<longrightarrow> (\<exists>m. new_ngram input sz = Inr m))
   \<and> (is_string input \<and> rejected_size sz \<longrightarrow> new_ngram input sz = Inl InvalidSize)"
proof (intro conjI impI)
  assume "\<not> is_string input"
  then show "new_ngram input sz = Inl InvalidConstructor"
    by (cases input) (simp_all add: new_ngram_def tokenize_def is_string_def)
next
  assume a: "is_string input \<and> positive_size sz"
  then obtain s where s: "input = Str s" by (cases input) (simp_all add: is_string_def)
  from a have "\<exists>x. (case sz of SizeUndefined \<Rightarrow> SizeNumber (Finite 4) | _ \<Rightarrow> sz) = SizeNumber x
                   \<and> \<not> le_zero x"
    by (cases sz rule: positive_size.cases) simp_all
  then show "\<exists>m. new_ngram input sz = Inr m"
    by (auto simp: new_ngram_def tokenize_def tabulate_def s Let_def)
next
  assume a: "is_string input \<and> rejected_size sz"
  then obtain s where s: "input = Str s" by (cases input) (simp_all add: is_string_def)
  from a show "new_ngram input sz = Inl InvalidSize"
    by (cases sz) (simp_all add: new_ngram_def tokenize_def tabulate_def s)
qed

theorem new_ngram_construction_witness:
  "is_string (Str ''a b c'') \<and> positive_size (SizeNumber (Finite (5 / 2)))
   \<and> (\<exists>m. new_ngram (Str ''a b c'') (SizeNumber (Finite (5 / 2))) = Inr m)
   \<and> \<not> is_string (Arr [''a'', ''b''])
   \<and> new_ngram (Arr [''a'', ''b'']) SizeUndefined = Inl InvalidConstructor
   \<and> rejected_size (SizeNumber (Finite 0))
   \<and> new_ngram (Str ''a b c'') (SizeNumber (Finite 0)) = Inl InvalidSize"
  using new_ngram_construction [of "Str ''a b c''" "SizeNumber (Finite (5 / 2))"]
    new_ngram_construction [of "Arr [''a'', ''b'']" SizeUndefined]
    new_ngram_construction [of "Str ''a b c''" "SizeNumber (Finite 0)"]
  by (simp add: is_string_def)

subsection \<open>Windows across a sentence end\<close>

lemma truncate_of_nat: "truncate (of_nat k) = int k"
  by (simp add: truncate_def)

lemma in_range_nat: "in_range i len (Finite (of_nat n)) = (i + n \<le> len)"
proof -
  have "((of_nat i :: rat) \<le> of_nat len - of_nat n) = ((of_nat (i + n) :: rat) \<le> of_nat len)"
    by (simp add: le_diff_eq)
  then show ?thesis by (simp only: in_range.simps of_nat_le_iff)
qed

lemma slice_full:
  assumes "i + n \<le> length tokens"
  shows "slice tokens (Finite (of_nat i)) (plus_number (Finite (of_nat n)) (of_nat i)) = window tokens n i"
proof -
  have r: "(of_nat n :: rat) + of_nat i = of_nat (n + i)" by simp
  have "clamp_position (length tokens) (Finite (of_nat (n + i))) = n + i"
    using assms by (simp add: clamp_position_def truncate_of_nat Let_def del: of_nat_add)
  moreover have "clamp_position (length tokens) (Finite (of_nat i)) = i"
    using assms by (simp add: clamp_position_def truncate_of_nat Let_def)
  ultimately show ?thesis
    by (simp only: plus_number.simps r slice_def Let_def window_def) simp
qed

lemma slice_context:
  assumes "i + n \<le> length tokens" "0 < n"
  shows "slice tokens (Finite (of_nat i)) (plus_number (plus_number (Finite (of_nat n)) (of_nat i)) (- 1))
         = take (n - 1) (window tokens n i)"
proof -
  have r: "(of_nat n :: rat) + of_nat i + - 1 = of_nat (n + i - 1)"
    using assms(2) by (simp add: of_nat_diff)
  have "clamp_position (length tokens) (Finite (of_nat (n + i - 1))) = n + i - 1"
    using assms by (simp add: clamp_position_def truncate_of_nat Let_def del: of_nat_add of_nat_diff)
  moreover have "clamp_position (length tokens) (Finite (of_nat i)) = i"
    using assms by (simp add: clamp_position_def truncate_of_nat Let_def)
  ultimately show ?thesis
    using assms(2) by (simp only: plus_number.simps r slice_def Let_def window_def) (simp add: min_def)
qed

lemma count_window_window:
  assumes "i + n \<le> length tokens"
  shows "count_window tokens (Finite (of_nat n)) i table
         = map_set (strip_marker (join (window tokens n i)))
             (count_of table (join (window tokens n i)) + 1) table"
  using slice_full [OF assms] by (simp add: count_window_def count_of_def Let_def)

lemma tabulate_loop_fold:
  assumes "0 < n"
  shows "tabulate_loop tokens (Finite (of_nat n)) i table
         = fold (count_window tokens (Finite (of_nat n)))
             (filter (context_open tokens n) [i..<Suc (length tokens) - n]) table"
proof (induction "Suc (length tokens) - n - i" arbitrary: i table)
  case 0
  then have nc: "\<not> (i \<le> length tokens \<and> in_range i (length tokens) (Finite (of_nat n)))"
    using assms unfolding in_range_nat by auto
  have e: "[i..<Suc (length tokens) - n] = []" using 0 by simp
  show ?case by (subst tabulate_loop.simps) (simp only: nc e if_False filter.simps fold.simps id_apply)
next
  case (Suc k)
  then have le: "i + n \<le> length tokens" by simp
  then have cond: "i \<le> length tokens \<and> in_range i (length tokens) (Finite (of_nat n))"
    unfolding in_range_nat by simp
  have upt: "[i..<Suc (length tokens) - n] = i # [Suc i..<Suc (length tokens) - n]"
    using le by (simp add: upt_conv_Cons)
  have skip: "skip_window tokens (Finite (of_nat n)) i = (\<not> context_open tokens n i)"
    using slice_context [OF le assms] by (simp add: skip_window_def context_open_def)
  have IH: "tabulate_loop tokens (Finite (of_nat n)) (Suc i) t
         = fold (count_window tokens (Finite (of_nat n)))
             (filter (context_open tokens n) [Suc i..<Suc (length tokens) - n]) t" for t
    using Suc.hyps(1) [of "Suc i" t] Suc.hyps(2) by simp
  show ?case
    by (subst tabulate_loop.simps) (simp add: cond upt skip IH del: in_range.simps)
qed

lemma tabulate_counted_windows:
  "0 < n \<Longrightarrow>
   tabulate tokens (SizeNumber (Finite (of_nat n)))
     = Inr (fold (count_window tokens (Finite (of_nat n))) (counted_windows tokens n) [])"
  using tabulate_loop_fold [of n tokens 0 "[]"]
  by (simp add: tabulate_def counted_windows_def)

lemma strip_marker_id: "end_marker \<notin> set s \<Longrightarrow> strip_marker s = s"
  by (induction s) auto

lemma set_join: "set (join ts) \<subseteq> (\<Union>t \<in> set ts. set t) \<union> {CHR '' ''}"
  by (induction ts rule: join.induct) auto

lemma join_window_marker_free:
  assumes "\<forall>t \<in> set tokens. end_marker \<notin> set t"
  shows "end_marker \<notin> set (join (window tokens n i))"
proof -
  have "set (window tokens n i) \<subseteq> set tokens"
    by (auto simp: window_def dest: in_set_takeD in_set_dropD)
  moreover have "end_marker \<noteq> CHR '' ''" by (simp add: end_marker_def)
  ultimately show ?thesis using assms set_join [of "window tokens n i"] by blast
qed

lemma fold_count_window_marker_free:
  assumes "\<forall>t \<in> set tokens. end_marker \<notin> set t" "\<forall>i \<in> set is. i + n \<le> length tokens"
  shows "fold (count_window tokens (Finite (of_nat n))) is table
         = fold (\<lambda>i. add_window (join (window tokens n i))) is table"
  using assms(2)
proof (induction "is" arbitrary: table)
  case Nil
  then show ?case by simp
next
  case (Cons i "is")
  have "count_window tokens (Finite (of_nat n)) i table = add_window (join (window tokens n i)) table"
    using Cons.prems strip_marker_id [OF join_window_marker_free [OF assms(1), of n i]]
    by (simp add: count_window_window add_window_def)
  then show ?case using Cons by simp
qed

lemma tabulate_marker_free:
  assumes "0 < n" "\<forall>t \<in> set tokens. end_marker \<notin> set t"
  shows "tabulate tokens (SizeNumber (Finite (of_nat n))) = Inr (window_counts tokens n)"
proof -
  have "\<forall>i \<in> set (counted_windows tokens n). i + n \<le> length tokens"
    using assms(1) by (auto simp: counted_windows_def)
  then show ?thesis
    using tabulate_counted_windows [OF assms(1), of tokens]
      fold_count_window_marker_free [OF assms(2), of "counted_windows tokens n" n "[]"]
    by (simp add: window_counts_def)
qed

lemma tabulate_sentence_tokens:
  "tokenize (Str ''hi there. hi friend.'') = Inr sentence_tokens
   \<and> counted_windows sentence_tokens 2 = [0, 2]
   \<and> tabulate sentence_tokens (SizeNumber (Finite 2)) = Inr (window_counts sentence_tokens 2)
   \<and> new_ngram (Str ''hi there. hi friend.'') (SizeNumber (Finite 2))
       = Inr \<lparr>ngram_size = Finite 2,
              ngram_model = [(''hi there.'', 1 / 2), (''hi friend.'', 1 / 2)], lookup = []\<rparr>"
  by code_simp

text \<open>
  C7. The claim says that, for every token sequence, \<open>tabulate\<close> counts a window exactly
  when none of its first \<open>n - 1\<close> tokens ends a sentence. For the tokens a, b, a, b, a, c
  with the end marker after both b and size 2, the windows at 0, 2 and 4 qualify and two of
  them spell a b, so that the table is a b: 2, a c: 1. The code reads the count of a window
  under the key with the marker and stores it under the key without it: the second window
  a b is not added to the first, the table is a b: 1, a c: 1, and the model gives both
  n-grams the probability 1/2 where the counted windows give 2/3 and 1/3.
\<close>

theorem tabulate_loses_marked_window:
  "counted_windows marked_tokens 2 = [0, 2, 4]
   \<and> map (\<lambda>i. strip_marker (join (window marked_tokens 2 i))) [0, 2, 4] = [''a b'', ''a b'', ''a c'']
   \<and> window_counts marked_tokens 2 = [(''a b'', 2), (''a c'', 1)]
   \<and> tabulate marked_tokens (SizeNumber (Finite 2)) = Inr [(''a b'', 1), (''a c'', 1)]
   \<and> tokenize (Str (join marked_tokens)) = Inr marked_tokens
   \<and> new_ngram (Str (join marked_tokens)) (SizeNumber (Finite 2))
       = Inr \<lparr>ngram_size = Finite 2,
              ngram_model = [(''a b'', 1 / 2), (''a c'', 1 / 2)], lookup = []\<rparr>
   \<and> probabilities (window_counts marked_tokens 2) = [(''a b'', 2 / 3), (''a c'', 1 / 3)]"
  by code_simp

end
